theory Spec2Isabelle
  imports Main "HOL-Library.Word"
begin

section \<open>The untemplated class of graph.h (lines 18 to 80)\<close>

text \<open>
  The first class of graph.h keeps two hash sets: \<^verbatim>\<open>unordered_set<int> vertices\<close> and
  \<^verbatim>\<open>unordered_set<pair<int, int>> edges\<close>. The code does no arithmetic on the
  vertex numbers, so the C++ \<^verbatim>\<open>int\<close> is modelled by \<^typ>\<open>int\<close>. Each member
  function mutates the object; the model takes the state and returns the new one.
\<close>

record set_graph =
  vertices :: "int set"
  edges :: "(int \<times> int) set"

definition set_graph_init :: set_graph where
  "set_graph_init = \<lparr>vertices = {}, edges = {}\<rparr>"

definition insertVertex :: "int \<Rightarrow> set_graph \<Rightarrow> set_graph" where
  "insertVertex v g = g\<lparr>vertices := insert v (vertices g)\<rparr>"

text \<open>
  \<^verbatim>\<open>eraseVertex\<close> erases \<^verbatim>\<open>v\<close> and then walks over the edge set, erasing every pair
  with \<^verbatim>\<open>it->first == v || it->second == v\<close>.
\<close>

definition eraseVertex :: "int \<Rightarrow> set_graph \<Rightarrow> set_graph" where
  "eraseVertex v g =
     g\<lparr>vertices := vertices g - {v},
       edges := Set.filter (\<lambda>e. \<not> (fst e = v \<or> snd e = v)) (edges g)\<rparr>"

definition insertEdge :: "int \<Rightarrow> int \<Rightarrow> set_graph \<Rightarrow> set_graph" where
  "insertEdge v1 v2 g = g\<lparr>edges := insert (v2, v1) (insert (v1, v2) (edges g))\<rparr>"

definition eraseEdge :: "int \<Rightarrow> int \<Rightarrow> set_graph \<Rightarrow> set_graph" where
  "eraseEdge v1 v2 g = g\<lparr>edges := (edges g - {(v1, v2)}) - {(v2, v1)}\<rparr>"

text \<open>The states that calls of the four member functions produce from the empty graph.\<close>

inductive reachable :: "set_graph \<Rightarrow> bool" where
  init: "reachable set_graph_init"
| insertVertex: "reachable g \<Longrightarrow> reachable (insertVertex v g)"
| insertEdge: "reachable g \<Longrightarrow> reachable (insertEdge v1 v2 g)"
| eraseEdge: "reachable g \<Longrightarrow> reachable (eraseEdge v1 v2 g)"
| eraseVertex: "reachable g \<Longrightarrow> reachable (eraseVertex v g)"


section \<open>The templated graph (graph.h from line 98, and graph_vector)\<close>

text \<open>
  Descriptors are \<^verbatim>\<open>size_t\<close>: 64-bit words here. The code never computes with
  them (the counter \<^verbatim>\<open>m_max_vd\<close> is only ever assigned 0), but it stores \<^verbatim>\<open>-1\<close>
  where a descriptor is expected, and that is the word of all ones. The two
  property types are the template parameters. The containers hold pointers to vertex and
  edge objects; the model holds the objects in lists, in iteration order: that is the
  \<^verbatim>\<open>std::vector\<close> of \<^verbatim>\<open>graph_vector\<close>, and one fixed iteration order of the
  \<^verbatim>\<open>unordered_set\<close> of \<^verbatim>\<open>graph\<close>.
\<close>

type_synonym vertex_descriptor = "64 word"
type_synonym edge_descriptor = "vertex_descriptor \<times> vertex_descriptor"

record 'e edge =
  m_source :: vertex_descriptor
  m_target :: vertex_descriptor
  m_eproperty :: 'e

record ('v, 'e) vertex =
  m_descriptor :: vertex_descriptor
  m_vproperty :: 'v
  m_out_edges :: "'e edge list"

record ('v, 'e) graph =
  m_max_vd :: vertex_descriptor
  m_vertices :: "('v, 'e) vertex list"
  m_edges :: "'e edge list"

text \<open>\<^verbatim>\<open>edge::descriptor()\<close> returns \<^verbatim>\<open>{m_source, m_target}\<close>.\<close>

definition descriptor :: "'e edge \<Rightarrow> edge_descriptor" where
  "descriptor e = (m_source e, m_target e)"

text \<open>The constructor: \<^verbatim>\<open>graph() : m_max_vd(0) {}\<close>.\<close>

definition graph_init :: "('v, 'e) graph" where
  "graph_init = \<lparr>m_max_vd = 0, m_vertices = [], m_edges = []\<rparr>"

definition num_vertices :: "('v, 'e) graph \<Rightarrow> nat" where
  "num_vertices g = length (m_vertices g)"

definition num_edges :: "('v, 'e) graph \<Rightarrow> nat" where
  "num_edges g = length (m_edges g)"

text \<open>
  \<^verbatim>\<open>find_vertex\<close> and \<^verbatim>\<open>find_edge\<close> return an iterator: the end iterator (here
  \<^const>\<open>None\<close>) when no element has the descriptor.
\<close>

definition find_vertex :: "('v, 'e) graph \<Rightarrow> vertex_descriptor \<Rightarrow> ('v, 'e) vertex option" where
  "find_vertex g vd = List.find (\<lambda>v. m_descriptor v = vd) (m_vertices g)"

definition find_edge :: "('v, 'e) graph \<Rightarrow> edge_descriptor \<Rightarrow> 'e edge option" where
  "find_edge g ed = List.find (\<lambda>e. descriptor e = ed) (m_edges g)"

text \<open>
  The error taxonomy of the specification. The source has no \<^verbatim>\<open>throw\<close> and no error
  return: none of the functions below produces one of these values. The modifiers return
  a sum so that "the call fails" is a statement about their value.
\<close>

datatype error = InvalidVertex | VertexNotFound | EdgeNotFound

text \<open>
  The five modifiers, between \<^verbatim>\<open>///@todo Define modifiers\<close> and
  \<^verbatim>\<open>////end of @todo\<close>: each body is empty or a single \<^verbatim>\<open>return\<close>. The same
  bodies stand in \<^verbatim>\<open>graph_vector\<close>.
\<close>

definition insert_vertex ::
  "('v, 'e) graph \<Rightarrow> 'v \<Rightarrow> error + (('v, 'e) graph \<times> vertex_descriptor)" where
  "insert_vertex g vp = Inr (g, m_max_vd g)"

definition insert_edge ::
  "('v, 'e) graph \<Rightarrow> vertex_descriptor \<Rightarrow> vertex_descriptor \<Rightarrow> 'e
     \<Rightarrow> error + (('v, 'e) graph \<times> edge_descriptor)" where
  "insert_edge g sd td ep = Inr (g, (sd, td))"

definition insert_edge_undirected ::
  "('v, 'e) graph \<Rightarrow> vertex_descriptor \<Rightarrow> vertex_descriptor \<Rightarrow> 'e \<Rightarrow> error + ('v, 'e) graph" where
  "insert_edge_undirected g sd td ep = Inr g"

definition erase_vertex :: "('v, 'e) graph \<Rightarrow> vertex_descriptor \<Rightarrow> error + ('v, 'e) graph" where
  "erase_vertex g vd = Inr g"

definition erase_edge :: "('v, 'e) graph \<Rightarrow> edge_descriptor \<Rightarrow> error + ('v, 'e) graph" where
  "erase_edge g ed = Inr g"

text \<open>
  \<^verbatim>\<open>clear\<close> resets the counter, deletes the objects and empties both containers.
\<close>

definition clear :: "('v, 'e) graph \<Rightarrow> ('v, 'e) graph" where
  "clear g = g\<lparr>m_max_vd := 0, m_vertices := [], m_edges := []\<rparr>"


section \<open>The traversals (graph algorithms.h)\<close>

text \<open>
  Both searches keep two hash sets, \<^verbatim>\<open>edges_unexplored\<close> and
  \<^verbatim>\<open>vertices_unexplored\<close>, and write the caller's parent map \<^verbatim>\<open>p\<close>. The sets are
  lists here: \<^verbatim>\<open>emplace\<close> is \<^const>\<open>List.insert\<close>, \<^verbatim>\<open>erase\<close> is
  \<^const>\<open>removeAll\<close>, \<^verbatim>\<open>count\<close> and \<^verbatim>\<open>find\<close> are membership; the code never
  iterates over them, so their order is immaterial. The parent map is a template
  parameter, documented as an "associative container between vertex_descriptors and
  parent vertex_descriptors": its values are descriptors, and the \<^verbatim>\<open>-1\<close> of
  \<^verbatim>\<open>p[vd] = -1\<close> is converted to one, the largest \<^verbatim>\<open>size_t\<close>.
\<close>

record visit_state =
  edges_unexplored :: "edge_descriptor list"
  vertices_unexplored :: "vertex_descriptor list"
  p :: "vertex_descriptor \<rightharpoonup> vertex_descriptor"

text \<open>
  The two initialisation loops, after \<^verbatim>\<open>p.clear()\<close>: one body per vertex, one per edge.
\<close>

definition init_vertex :: "visit_state \<Rightarrow> ('v, 'e) vertex \<Rightarrow> visit_state" where
  "init_vertex s vi =
     (let vd = m_descriptor vi
      in s\<lparr>vertices_unexplored := List.insert vd (vertices_unexplored s),
           p := (p s)(vd \<mapsto> - 1)\<rparr>)"

definition init_edge :: "visit_state \<Rightarrow> 'e edge \<Rightarrow> visit_state" where
  "init_edge s ei = s\<lparr>edges_unexplored := List.insert (descriptor ei) (edges_unexplored s)\<rparr>"

definition initialize :: "('v, 'e) graph \<Rightarrow> visit_state" where
  "initialize g =
     foldl init_edge
       (foldl init_vertex
          \<lparr>edges_unexplored = [], vertices_unexplored = [], p = Map.empty\<rparr> (m_vertices g))
       (m_edges g)"

subsection \<open>Breadth-first search\<close>

text \<open>
  The body of the loop over the adjacency list of the dequeued vertex \<^verbatim>\<open>v\<close>, on the
  queue and the search state. The \<^verbatim>\<open>erase\<close> of the edge stands inside the branch
  of the discovery edge.
\<close>

definition bfs_edge ::
  "('v, 'e) vertex \<Rightarrow> vertex_descriptor list \<times> visit_state \<Rightarrow> 'e edge
     \<Rightarrow> vertex_descriptor list \<times> visit_state" where
  "bfs_edge v qs aei =
     (case qs of (q, s) \<Rightarrow>
        if descriptor aei \<in> set (edges_unexplored s) then
          let t = m_target aei in
          if t \<in> set (vertices_unexplored s) then
            (q @ [t],
             s\<lparr>edges_unexplored := removeAll (descriptor aei) (edges_unexplored s),
               p := (p s)(t \<mapsto> m_descriptor v),
               vertices_unexplored := removeAll t (vertices_unexplored s)\<rparr>)
          else (q, s)
        else (q, s))"

lemma bfs_edge_measure:
  "bfs_edge v (q, s) e = (q', s') \<Longrightarrow>
     2 * length (vertices_unexplored s') + length q'
       \<le> 2 * length (vertices_unexplored s) + length q"
  using length_removeAll_less [of "m_target e" "vertices_unexplored s"]
  by (auto simp: bfs_edge_def Let_def split: if_splits)

lemma bfs_adj_measure:
  "foldl (bfs_edge v) (q, s) es = (q', s') \<Longrightarrow>
     2 * length (vertices_unexplored s') + length q'
       \<le> 2 * length (vertices_unexplored s) + length q"
proof (induction es arbitrary: q s)
  case Nil
  then show ?case by simp
next
  case (Cons e es)
  obtain q1 s1 where st: "bfs_edge v (q, s) e = (q1, s1)"
    by (cases "bfs_edge v (q, s) e")
  with Cons.prems have "foldl (bfs_edge v) (q1, s1) es = (q', s')" by simp
  from Cons.IH [OF this] bfs_edge_measure [OF st] show ?case by linarith
qed

text \<open>
  The \<^verbatim>\<open>while (!q.empty())\<close> loop. \<^verbatim>\<open>*g.find_vertex(vd)\<close> dereferences the
  iterator unchecked: on the end iterator the behaviour is undefined, and the model
  returns \<^const>\<open>None\<close>.
\<close>

function bfs_while ::
  "('v, 'e) graph \<Rightarrow> vertex_descriptor list \<Rightarrow> visit_state \<Rightarrow> visit_state option" where
  "bfs_while g q s =
     (case q of
        [] \<Rightarrow> Some s
      | vd # rest \<Rightarrow>
          (case find_vertex g vd of
             None \<Rightarrow> None
           | Some v \<Rightarrow>
               (case foldl (bfs_edge v) (rest, s) (m_out_edges v) of
                  (q', s') \<Rightarrow> bfs_while g q' s')))"
  by pat_completeness auto
termination
  apply (relation "measure (\<lambda>(g, q, s). 2 * length (vertices_unexplored s) + length q)")
   apply simp
  apply (auto dest!: sym [of "(_, _)"])
  apply (drule bfs_adj_measure)
  apply simp
  done

declare bfs_while.simps [simp del]

text \<open>
  The loop over the vertices ("for each CC"). The queue is empty whenever the while loop
  is left, so each root is pushed on the empty queue.
\<close>

fun bfs_components ::
  "('v, 'e) graph \<Rightarrow> ('v, 'e) vertex list \<Rightarrow> visit_state \<Rightarrow> visit_state option" where
  "bfs_components g [] s = Some s"
| "bfs_components g (vi # vis) s =
     (let vd = m_descriptor vi in
      if vd \<in> set (vertices_unexplored s) then
        (case bfs_while g [vd]
                (s\<lparr>vertices_unexplored := removeAll vd (vertices_unexplored s)\<rparr>) of
           None \<Rightarrow> None
         | Some s' \<Rightarrow> bfs_components g vis s')
      else bfs_components g vis s)"

definition bfs_run :: "('v, 'e) graph \<Rightarrow> visit_state option" where
  "bfs_run g = bfs_components g (m_vertices g) (initialize g)"

definition breadth_first_search ::
  "('v, 'e) graph \<Rightarrow> (vertex_descriptor \<rightharpoonup> vertex_descriptor) option" where
  "breadth_first_search g = map_option p (bfs_run g)"

subsection \<open>Depth-first search\<close>

text \<open>
  \<^verbatim>\<open>dfs_visit\<close> and the loop over the adjacency list in its body, which calls
  \<^verbatim>\<open>dfs_visit\<close> again. Here the \<^verbatim>\<open>erase\<close> of the edge stands before the test of
  the target.
\<close>

function dfs_visit ::
    "('v, 'e) graph \<Rightarrow> vertex_descriptor \<Rightarrow> visit_state \<Rightarrow> visit_state option"
  and dfs_adj ::
    "('v, 'e) graph \<Rightarrow> vertex_descriptor \<Rightarrow> 'e edge list \<Rightarrow> visit_state
       \<Rightarrow> visit_state option"
  where
  "dfs_visit g u s =
     (case find_vertex g u of
        None \<Rightarrow> None
      | Some v \<Rightarrow>
          dfs_adj g u (m_out_edges v)
            (s\<lparr>vertices_unexplored := removeAll u (vertices_unexplored s)\<rparr>))"
| "dfs_adj g u [] s = Some s"
| "dfs_adj g u (aei # rest) s =
     (if descriptor aei \<in> set (edges_unexplored s) then
        (let s1 = s\<lparr>edges_unexplored := removeAll (descriptor aei) (edges_unexplored s)\<rparr>;
             t = m_target aei
         in if t \<in> set (vertices_unexplored s1) then
              (case dfs_visit g t (s1\<lparr>p := (p s1)(t \<mapsto> u)\<rparr>) of
                 None \<Rightarrow> None
               | Some s2 \<Rightarrow> dfs_adj g u rest s2)
            else dfs_adj g u rest s1)
      else dfs_adj g u rest s)"
  by pat_completeness auto

text \<open>
  The recursion is nested: the loop goes on in the state that the inner call returns.
  Wherever the functions are defined, they never add an unexplored vertex.
\<close>

lemma dfs_shrinks:
  "dfs_visit_dfs_adj_dom (Inl (g, u, s)) \<Longrightarrow> dfs_visit g u s = Some s' \<Longrightarrow>
     length (vertices_unexplored s') \<le> length (removeAll u (vertices_unexplored s))"
  "dfs_visit_dfs_adj_dom (Inr (g, u, es, s)) \<Longrightarrow> dfs_adj g u es s = Some s' \<Longrightarrow>
     length (vertices_unexplored s') \<le> length (vertices_unexplored s)"
proof (induction g u s and g u es s arbitrary: s' and s' rule: dfs_visit_dfs_adj.pinduct)
  case (1 g u s)
  then show ?case by (auto simp: dfs_visit.psimps split: option.splits)
next
  case (2 g u s)
  then show ?case by (simp add: dfs_adj.psimps)
next
  case (3 g u aei rest s)
  show ?case
  proof (cases "descriptor aei \<in> set (edges_unexplored s)")
    case False
    with 3 show ?thesis by (simp add: dfs_adj.psimps)
  next
    case True
    note inE = this
    let ?s1 = "s\<lparr>edges_unexplored := removeAll (descriptor aei) (edges_unexplored s)\<rparr>"
    show ?thesis
    proof (cases "m_target aei \<in> set (vertices_unexplored s)")
      case False
      with 3(1,4,6) inE show ?thesis by (simp add: dfs_adj.psimps Let_def)
    next
      case True
      with 3(1,6) inE obtain s2 where
        s2: "dfs_visit g (m_target aei) (?s1\<lparr>p := (p ?s1)(m_target aei \<mapsto> u)\<rparr>)
               = Some s2"
        and s': "dfs_adj g u rest s2 = Some s'"
        by (auto simp: dfs_adj.psimps Let_def split: option.splits)
      from 3(2) [OF inE refl refl _ s2] True
      have "length (vertices_unexplored s2)
              \<le> length (removeAll (m_target aei) (vertices_unexplored s))"
        by simp
      moreover from 3(3) [OF inE refl refl _ s2 s'] True
      have "length (vertices_unexplored s') \<le> length (vertices_unexplored s2)" by simp
      moreover have "length (removeAll (m_target aei) (vertices_unexplored s))
                       < length (vertices_unexplored s)"
        using True by (rule length_removeAll_less)
      ultimately show ?thesis by linarith
    qed
  qed
qed

termination dfs_visit
  apply (relation "inv_image (less_than <*lex*> less_than <*lex*> less_than)
     (\<lambda>x. case x of
        Inl (g, u, s) \<Rightarrow> (length (removeAll u (vertices_unexplored s)), Suc 0, 0)
      | Inr (g, u, es, s) \<Rightarrow> (length (vertices_unexplored s), 0, length es))")
       apply (intro wf_inv_image wf_lex_prod wf_less_than)
      apply simp
     apply (simp add: length_removeAll_less)
    apply (auto dest!: dfs_shrinks(1))
  apply (metis length_removeAll_less order_le_less_trans)
  done

declare dfs_visit.simps [simp del]

fun dfs_components ::
  "('v, 'e) graph \<Rightarrow> ('v, 'e) vertex list \<Rightarrow> visit_state \<Rightarrow> visit_state option" where
  "dfs_components g [] s = Some s"
| "dfs_components g (vi # vis) s =
     (let vd = m_descriptor vi in
      if vd \<in> set (vertices_unexplored s) then
        (case dfs_visit g vd s of
           None \<Rightarrow> None
         | Some s' \<Rightarrow> dfs_components g vis s')
      else dfs_components g vis s)"

definition dfs_run :: "('v, 'e) graph \<Rightarrow> visit_state option" where
  "dfs_run g = dfs_components g (m_vertices g) (initialize g)"

definition depth_first_search ::
  "('v, 'e) graph \<Rightarrow> (vertex_descriptor \<rightharpoonup> vertex_descriptor) option" where
  "depth_first_search g = map_option p (dfs_run g)"


section \<open>Concrete graphs\<close>

text \<open>The constructors \<^verbatim>\<open>edge(s, t, w)\<close> and \<^verbatim>\<open>vertex(vd, v)\<close>.\<close>

definition new_edge :: "vertex_descriptor \<Rightarrow> vertex_descriptor \<Rightarrow> 'e \<Rightarrow> 'e edge" where
  "new_edge s t w = \<lparr>m_source = s, m_target = t, m_eproperty = w\<rparr>"

definition new_vertex :: "vertex_descriptor \<Rightarrow> 'v \<Rightarrow> ('v, 'e) vertex" where
  "new_vertex vd v = \<lparr>m_descriptor = vd, m_vproperty = v, m_out_edges = []\<rparr>"

text \<open>
  The scenario of the specification: vertices 0 to 3 in this order, the undirected edges
  (0,1) and (1,2) as two directed entries each, adjacency lists in ascending order of the
  target, vertex 3 isolated.
\<close>

definition scenario_graph :: "(unit, unit) graph" where
  "scenario_graph =
     \<lparr>m_max_vd = 4,
      m_vertices =
        [(new_vertex 0 ())\<lparr>m_out_edges := [new_edge 0 1 ()]\<rparr>,
         (new_vertex 1 ())\<lparr>m_out_edges := [new_edge 1 0 (), new_edge 1 2 ()]\<rparr>,
         (new_vertex 2 ())\<lparr>m_out_edges := [new_edge 2 1 ()]\<rparr>,
         new_vertex 3 ()],
      m_edges = [new_edge 0 1 (), new_edge 1 0 (), new_edge 1 2 (), new_edge 2 1 ()]\<rparr>"

text \<open>Two vertices joined by one undirected edge.\<close>

definition pair_graph :: "(unit, unit) graph" where
  "pair_graph =
     \<lparr>m_max_vd = 2,
      m_vertices =
        [(new_vertex 0 ())\<lparr>m_out_edges := [new_edge 0 1 ()]\<rparr>,
         (new_vertex 1 ())\<lparr>m_out_edges := [new_edge 1 0 ()]\<rparr>],
      m_edges = [new_edge 0 1 (), new_edge 1 0 ()]\<rparr>"

text \<open>Two vertices and the single directed edge (0,1).\<close>

definition directed_graph :: "(unit, unit) graph" where
  "directed_graph =
     \<lparr>m_max_vd = 2,
      m_vertices = [(new_vertex 0 ())\<lparr>m_out_edges := [new_edge 0 1 ()]\<rparr>, new_vertex 1 ()],
      m_edges = [new_edge 0 1 ()]\<rparr>"


text \<open>
  Two vertices joined by one undirected edge, the first with the largest descriptor, which
  is the value that \<^verbatim>\<open>-1\<close> converts to.
\<close>

definition sentinel_graph :: "(unit, unit) graph" where
  "sentinel_graph =
     \<lparr>m_max_vd = 0,
      m_vertices =
        [(new_vertex (- 1) ())\<lparr>m_out_edges := [new_edge (- 1) 0 ()]\<rparr>,
         (new_vertex 0 ())\<lparr>m_out_edges := [new_edge 0 (- 1) ()]\<rparr>],
      m_edges = [new_edge (- 1) 0 (), new_edge 0 (- 1) ()]\<rparr>"


section \<open>Graphs as the searches see them\<close>

text \<open>
  The descriptors in iteration order, and the set of edge descriptors, which is a relation
  on descriptors.
\<close>

definition vertex_descriptors :: "('v, 'e) graph \<Rightarrow> vertex_descriptor list" where
  "vertex_descriptors g = map m_descriptor (m_vertices g)"

definition edge_descriptors :: "('v, 'e) graph \<Rightarrow> edge_descriptor set" where
  "edge_descriptors g = descriptor ` set (m_edges g)"

text \<open>
  The step a search can take from \<^verbatim>\<open>u\<close>: an entry of the adjacency list of the vertex
  that \<^verbatim>\<open>find_vertex\<close> returns for \<^verbatim>\<open>u\<close>, whose descriptor is in the edge
  collection and whose target is a vertex of the graph.
\<close>

definition adj_rel :: "('v, 'e) graph \<Rightarrow> (vertex_descriptor \<times> vertex_descriptor) set" where
  "adj_rel g =
     {(u, t). \<exists>v e. find_vertex g u = Some v \<and> e \<in> set (m_out_edges v)
        \<and> descriptor e \<in> edge_descriptors g \<and> m_target e = t
        \<and> t \<in> set (vertex_descriptors g)}"

text \<open>
  The invariants of the data model that the searches rely on: both ends of every edge are
  vertices of the graph, and the adjacency list of a vertex holds exactly the edges whose
  source it is. A graph is undirected when every edge has its mirror.
\<close>

definition wf_graph :: "('v, 'e) graph \<Rightarrow> bool" where
  "wf_graph g \<longleftrightarrow>
     (\<forall>e \<in> set (m_edges g).
        m_source e \<in> set (vertex_descriptors g) \<and> m_target e \<in> set (vertex_descriptors g))
     \<and> (\<forall>v \<in> set (m_vertices g).
          set (m_out_edges v) = set (filter (\<lambda>e. m_source e = m_descriptor v) (m_edges g)))"

definition undirected :: "('v, 'e) graph \<Rightarrow> bool" where
  "undirected g \<longleftrightarrow> (\<forall>e \<in> set (m_edges g). (m_target e, m_source e) \<in> edge_descriptors g)"

text \<open>
  Vertices are connected when each reaches the other along edges; the components are the
  classes of this relation. The root of a component is its first vertex in iteration
  order.
\<close>

definition connected :: "('v, 'e) graph \<Rightarrow> (vertex_descriptor \<times> vertex_descriptor) set" where
  "connected g =
     {(u, v). u \<in> set (vertex_descriptors g) \<and> v \<in> set (vertex_descriptors g)
        \<and> (u, v) \<in> (edge_descriptors g)\<^sup>* \<and> (v, u) \<in> (edge_descriptors g)\<^sup>*}"

definition components :: "('v, 'e) graph \<Rightarrow> vertex_descriptor set set" where
  "components g = set (vertex_descriptors g) // connected g"

definition component_root :: "('v, 'e) graph \<Rightarrow> vertex_descriptor \<Rightarrow> bool" where
  "component_root g v \<longleftrightarrow>
     List.find (\<lambda>u. (u, v) \<in> connected g) (vertex_descriptors g) = Some v"


section \<open>Invariants of the searches\<close>

abbreviation VU :: "visit_state \<Rightarrow> vertex_descriptor set" where
  "VU s \<equiv> set (vertices_unexplored s)"

abbreviation EU :: "visit_state \<Rightarrow> edge_descriptor set" where
  "EU s \<equiv> set (edges_unexplored s)"

text \<open>
  Every unexplored edge is an edge of the graph, and the target of an edge that is no
  longer unexplored is explored.
\<close>

definition edge_inv :: "('v, 'e) graph \<Rightarrow> visit_state \<Rightarrow> bool" where
  "edge_inv g s \<longleftrightarrow>
     EU s \<subseteq> edge_descriptors g \<and> (\<forall>d \<in> edge_descriptors g. d \<notin> EU s \<longrightarrow> snd d \<notin> VU s)"

text \<open>
  What a search from \<^verbatim>\<open>x\<close> does to the parent map between two states: every vertex
  explored in between, but \<^verbatim>\<open>x\<close>, has a vertex of the graph as parent, and every
  other entry is untouched.
\<close>

definition parents_set ::
  "('v, 'e) graph \<Rightarrow> vertex_descriptor \<Rightarrow> visit_state \<Rightarrow> visit_state \<Rightarrow> bool" where
  "parents_set g x s s' \<longleftrightarrow>
     (\<forall>v. v \<in> VU s \<and> v \<notin> VU s' \<and> v \<noteq> x
        \<longrightarrow> (\<exists>y \<in> set (vertex_descriptors g). p s' v = Some y))
     \<and> (\<forall>v. v \<notin> VU s \<or> v \<in> VU s' \<or> v = x \<longrightarrow> p s' v = p s v)"

text \<open>No step leads from an explored vertex to an unexplored one.\<close>

definition closed :: "('v, 'e) graph \<Rightarrow> visit_state \<Rightarrow> bool" where
  "closed g s \<longleftrightarrow> (\<forall>u t. (u, t) \<in> adj_rel g \<longrightarrow> u \<notin> VU s \<longrightarrow> t \<notin> VU s)"

text \<open>
  The effect of the search of one component from the root \<^verbatim>\<open>x\<close>: exactly the
  vertices that \<^verbatim>\<open>x\<close> reaches become explored.
\<close>

definition search_post ::
  "('v, 'e) graph \<Rightarrow> vertex_descriptor \<Rightarrow> visit_state \<Rightarrow> visit_state \<Rightarrow> bool" where
  "search_post g x s s' \<longleftrightarrow>
     VU s' = VU s - (adj_rel g)\<^sup>* `` {x} \<and> edge_inv g s' \<and> parents_set g x s s'"

text \<open>
  The invariant of the while loop of the breadth-first search from \<^verbatim>\<open>x\<close>, started
  in state \<^verbatim>\<open>s\<close>: the queue holds reached vertices of the graph, and every explored
  vertex outside the queue has only explored successors.
\<close>

definition bfs_inv ::
  "('v, 'e) graph \<Rightarrow> vertex_descriptor \<Rightarrow> visit_state \<Rightarrow> vertex_descriptor list
     \<Rightarrow> visit_state \<Rightarrow> bool" where
  "bfs_inv g x s q s1 \<longleftrightarrow>
     set q \<subseteq> (adj_rel g)\<^sup>* `` {x} \<and> set q \<subseteq> set (vertex_descriptors g)
     \<and> VU s1 \<subseteq> VU s - {x} \<and> VU s - (adj_rel g)\<^sup>* `` {x} \<subseteq> VU s1
     \<and> (\<forall>u t. (u, t) \<in> adj_rel g \<longrightarrow> u \<notin> VU s1 \<longrightarrow> u \<notin> set q \<longrightarrow> t \<notin> VU s1)
     \<and> edge_inv g s1 \<and> parents_set g x s s1"

text \<open>
  What \<^verbatim>\<open>dfs_visit\<close> and its loop establish: the vertices explored by the call are
  reached from \<^verbatim>\<open>u\<close> and have only explored successors.
\<close>

definition dfs_post ::
  "('v, 'e) graph \<Rightarrow> vertex_descriptor \<Rightarrow> visit_state \<Rightarrow> visit_state \<Rightarrow> bool" where
  "dfs_post g u s s' \<longleftrightarrow>
     VU s' \<subseteq> VU s \<and> VU s - VU s' \<subseteq> (adj_rel g)\<^sup>* `` {u}
     \<and> (\<forall>w t. w \<in> VU s \<and> w \<notin> VU s' \<and> (w, t) \<in> adj_rel g \<longrightarrow> t \<notin> VU s')
     \<and> edge_inv g s' \<and> parents_set g u s s'"

text \<open>
  Both loops over the vertices have one shape: a search \<^verbatim>\<open>f\<close> is started from
  every vertex that is still unexplored when its turn comes.
\<close>

fun scan ::
  "(vertex_descriptor \<Rightarrow> visit_state \<Rightarrow> visit_state option) \<Rightarrow> vertex_descriptor list
     \<Rightarrow> visit_state \<Rightarrow> visit_state option" where
  "scan f [] s = Some s"
| "scan f (x # xs) s =
     (if x \<in> VU s then (case f x s of None \<Rightarrow> None | Some s' \<Rightarrow> scan f xs s')
      else scan f xs s)"

text \<open>
  \<^verbatim>\<open>v\<close> is the first vertex of the list that reaches \<^verbatim>\<open>v\<close>; and the invariant
  of the loop over the vertices, after the vertices \<^verbatim>\<open>ds\<close>.
\<close>

definition first_reaching :: "('v, 'e) graph \<Rightarrow> vertex_descriptor list \<Rightarrow> vertex_descriptor \<Rightarrow> bool" where
  "first_reaching g ds v \<longleftrightarrow> List.find (\<lambda>u. (u, v) \<in> (adj_rel g)\<^sup>*) ds = Some v"

definition scan_inv :: "('v, 'e) graph \<Rightarrow> vertex_descriptor list \<Rightarrow> visit_state \<Rightarrow> bool" where
  "scan_inv g ds s \<longleftrightarrow>
     VU s = set (vertex_descriptors g) - (adj_rel g)\<^sup>* `` set ds
     \<and> edge_inv g s
     \<and> dom (p s) = set (vertex_descriptors g)
     \<and> (- 1 \<notin> set (vertex_descriptors g)
          \<longrightarrow> (\<forall>v. p s v = Some (- 1) \<longleftrightarrow> v \<in> VU s \<or> first_reaching g ds v))"


section \<open>The modifiers and \<^verbatim>\<open>clear\<close>\<close>

text \<open>
  C1, at the failing input. On the empty graph \<^verbatim>\<open>insert_vertex\<close> returns descriptor 0
  and stores nothing: the graph still has no vertex, the lookup of the returned
  descriptor finds nothing, and a second call returns descriptor 0 again.
\<close>

theorem insert_vertex_stores_nothing:
  "insert_vertex (graph_init :: (unit, unit) graph) () = Inr (graph_init, 0)
   \<and> num_vertices (graph_init :: (unit, unit) graph) = 0
   \<and> find_vertex (graph_init :: (unit, unit) graph) 0 = None"
  by (simp add: insert_vertex_def graph_init_def num_vertices_def find_vertex_def)

text \<open>
  C2 as stated fails: on the empty graph neither 0 nor 1 names a live vertex, and
  \<^verbatim>\<open>insert_edge(0, 1, ep)\<close> returns the pair (0, 1), not an error.
\<close>

theorem insert_edge_dead_endpoints_returns:
  "find_vertex (graph_init :: (unit, unit) graph) 0 = None
   \<and> find_vertex (graph_init :: (unit, unit) graph) 1 = None
   \<and> insert_edge (graph_init :: (unit, unit) graph) 0 1 () = Inr (graph_init, (0, 1))"
  by (simp add: insert_edge_def graph_init_def find_vertex_def)

text \<open>
  C2, amended: \<^verbatim>\<open>insert_edge(source, target, property)\<close> has no failure path. For
  every graph state and all descriptors, live or not, it returns the pair
  (source, target).
\<close>

theorem insert_edge_returns_pair:
  "\<exists>g'. insert_edge g sd td ep = Inr (g', (sd, td))"
  by (simp add: insert_edge_def)

text \<open>
  C3 as stated fails: on the empty graph descriptor 5 is not live, and
  \<^verbatim>\<open>erase_vertex(5)\<close> returns normally; so does \<^verbatim>\<open>eraseVertex(5)\<close> of the
  untemplated class, which leaves the empty graph as it is.
\<close>

theorem erase_vertex_dead_returns:
  "find_vertex (graph_init :: (unit, unit) graph) 5 = None
   \<and> erase_vertex (graph_init :: (unit, unit) graph) 5 = Inr graph_init
   \<and> 5 \<notin> vertices set_graph_init
   \<and> eraseVertex 5 set_graph_init = set_graph_init"
  by (simp add: erase_vertex_def graph_init_def find_vertex_def set_graph_init_def
      eraseVertex_def)

text \<open>
  C3, amended: erasing a vertex has no failure path, whether or not the descriptor is
  live: \<^verbatim>\<open>erase_vertex\<close> returns normally, and \<^verbatim>\<open>eraseVertex(v)\<close> of the
  untemplated class removes \<^verbatim>\<open>v\<close> and exactly the edges whose source or target is
  \<^verbatim>\<open>v\<close>, so that afterwards no edge references \<^verbatim>\<open>v\<close>.
\<close>

theorem eraseVertex_no_dangling:
  "(\<exists>tg'. erase_vertex tg vd = Inr tg')
   \<and> vertices (eraseVertex v g) = vertices g - {v}
   \<and> edges (eraseVertex v g) = {e \<in> edges g. fst e \<noteq> v \<and> snd e \<noteq> v}
   \<and> (a, v) \<notin> edges (eraseVertex v g)
   \<and> (v, b) \<notin> edges (eraseVertex v g)"
  by (auto simp: erase_vertex_def eraseVertex_def)

text \<open>
  C4 as stated fails: with no vertex live, \<^verbatim>\<open>insertEdge(1, 2)\<close> of the untemplated
  class adds both directed pairs, and \<^verbatim>\<open>insert_edge_undirected(1, 2, ep)\<close> returns
  normally.
\<close>

theorem insertEdge_dead_endpoints_adds:
  "vertices set_graph_init = {}
   \<and> edges (insertEdge 1 2 set_graph_init) = {(1, 2), (2, 1)}
   \<and> find_vertex (graph_init :: (unit, unit) graph) 1 = None
   \<and> insert_edge_undirected (graph_init :: (unit, unit) graph) 1 2 () = Inr graph_init"
  by (auto simp: set_graph_init_def insertEdge_def insert_edge_undirected_def
      graph_init_def find_vertex_def)

text \<open>
  C4, amended: inserting an undirected edge has no failure path and checks no endpoint:
  \<^verbatim>\<open>insert_edge_undirected\<close> returns normally, and \<^verbatim>\<open>insertEdge(v1, v2)\<close> of the
  untemplated class adds exactly the two directed pairs (v1,v2) and (v2,v1) to the edge
  set, for all v1 and v2, and leaves the vertex set as it is.
\<close>

theorem insertEdge_adds_both:
  "(\<exists>tg'. insert_edge_undirected tg sd td ep = Inr tg')
   \<and> edges (insertEdge v1 v2 g) = edges g \<union> {(v1, v2), (v2, v1)}
   \<and> vertices (insertEdge v1 v2 g) = vertices g"
  by (auto simp: insert_edge_undirected_def insertEdge_def)

text \<open>
  C8: after \<^verbatim>\<open>clear\<close> the graph has no vertex and no edge, the next
  \<^verbatim>\<open>insert_vertex\<close> returns descriptor 0, and a second \<^verbatim>\<open>clear\<close> leaves the same
  state.
\<close>

theorem clear_empties_and_is_idempotent:
  "num_vertices (clear g) = 0
   \<and> num_edges (clear g) = 0
   \<and> m_max_vd (clear g) = 0
   \<and> (\<exists>g'. insert_vertex (clear g) vp = Inr (g', 0))
   \<and> clear (clear g) = clear g"
  by (simp add: clear_def num_vertices_def num_edges_def insert_vertex_def)

text \<open>
  C9: each of the five modifiers of the templated graph returns the state it was given:
  the vertex and edge counts, the descriptor counter and every lookup are the same
  before and after the call.
\<close>

theorem modifiers_leave_state_unchanged:
  "(\<exists>d. insert_vertex g vp = Inr (g, d))
   \<and> (\<exists>d. insert_edge g sd td ep = Inr (g, d))
   \<and> insert_edge_undirected g sd td ep = Inr g
   \<and> erase_vertex g vd = Inr g
   \<and> erase_edge g ed = Inr g"
  by (simp add: insert_vertex_def insert_edge_def insert_edge_undirected_def
      erase_vertex_def erase_edge_def)

text \<open>
  C10: in every state of the untemplated class that is reachable from the empty graph,
  the pair (u,v) is in the edge set if and only if (v,u) is.
\<close>

theorem reachable_edges_symmetric:
  assumes "reachable g"
  shows "(u, v) \<in> edges g \<longleftrightarrow> (v, u) \<in> edges g"
  using assms
proof (induction arbitrary: u v rule: reachable.induct)
  case init
  show ?case by (simp add: set_graph_init_def)
next
  case (insertVertex g w)
  then show ?case by (simp add: insertVertex_def)
next
  case (insertEdge g v1 v2)
  then show ?case by (auto simp: insertEdge_def)
next
  case (eraseEdge g v1 v2)
  then show ?case by (auto simp: eraseEdge_def)
next
  case (eraseVertex g w)
  then show ?case by (auto simp: eraseVertex_def)
qed

theorem reachable_edges_symmetric_witness:
  "reachable (eraseVertex 3 (insertEdge 2 3 (insertEdge 1 2 (insertVertex 1 set_graph_init))))
   \<and> ((1, 2) \<in> edges (eraseVertex 3 (insertEdge 2 3 (insertEdge 1 2 (insertVertex 1 set_graph_init))))
        \<longleftrightarrow> (2, 1) \<in> edges (eraseVertex 3 (insertEdge 2 3 (insertEdge 1 2 (insertVertex 1 set_graph_init)))))
   \<and> (1, 2) \<in> edges (eraseVertex 3 (insertEdge 2 3 (insertEdge 1 2 (insertVertex 1 set_graph_init))))"
proof -
  have r: "reachable (eraseVertex 3 (insertEdge 2 3 (insertEdge 1 2 (insertVertex 1 set_graph_init))))"
    by (intro reachable.intros)
  have "(1, 2) \<in> edges (eraseVertex 3 (insertEdge 2 3 (insertEdge 1 2 (insertVertex 1 set_graph_init))))"
    by (simp add: eraseVertex_def insertEdge_def insertVertex_def set_graph_init_def)
  with r reachable_edges_symmetric [OF r, of 1 2] show ?thesis by simp
qed


section \<open>Correctness of the searches\<close>

subsection \<open>Lookup and initialisation\<close>

lemma find_vertex_Some:
  "find_vertex g u = Some v \<Longrightarrow> m_descriptor v = u \<and> v \<in> set (m_vertices g)"
  unfolding find_vertex_def by (auto simp: find_Some_iff)

lemma find_vertex_defined:
  "u \<in> set (vertex_descriptors g) \<Longrightarrow> \<exists>v. find_vertex g u = Some v"
  unfolding find_vertex_def vertex_descriptors_def
  by (cases "List.find (\<lambda>v. m_descriptor v = u) (m_vertices g)") (auto simp: find_None_iff)

lemma init_vertices_fold:
  "edges_unexplored (foldl init_vertex s vs) = edges_unexplored s
   \<and> set (vertices_unexplored (foldl init_vertex s vs))
       = set (vertices_unexplored s) \<union> m_descriptor ` set vs
   \<and> p (foldl init_vertex s vs)
       = (\<lambda>x. if x \<in> m_descriptor ` set vs then Some (- 1) else p s x)"
  by (induction vs arbitrary: s) (auto simp: init_vertex_def Let_def fun_eq_iff)

lemma init_edges_fold:
  "set (edges_unexplored (foldl init_edge s es)) = set (edges_unexplored s) \<union> descriptor ` set es
   \<and> vertices_unexplored (foldl init_edge s es) = vertices_unexplored s
   \<and> p (foldl init_edge s es) = p s"
  by (induction es arbitrary: s) (auto simp: init_edge_def)

lemma initialize_state:
  "set (vertices_unexplored (initialize g)) = set (vertex_descriptors g)"
  "set (edges_unexplored (initialize g)) = edge_descriptors g"
  "p (initialize g) x = (if x \<in> set (vertex_descriptors g) then Some (- 1) else None)"
  by (simp_all add: initialize_def init_edges_fold init_vertices_fold vertex_descriptors_def
      edge_descriptors_def)

lemma adj_relI:
  "find_vertex g u = Some v \<Longrightarrow> e \<in> set (m_out_edges v) \<Longrightarrow> descriptor e \<in> edge_descriptors g
     \<Longrightarrow> m_target e \<in> set (vertex_descriptors g) \<Longrightarrow> (u, m_target e) \<in> adj_rel g"
  unfolding adj_rel_def by blast

lemma adj_rel_dom: "(a, t) \<in> adj_rel g \<Longrightarrow> a \<in> set (vertex_descriptors g) \<and> t \<in> set (vertex_descriptors g)"
  unfolding adj_rel_def vertex_descriptors_def by (auto dest: find_vertex_Some)

lemma adj_rel_out_edges:
  assumes "find_vertex g u = Some v"
    and "\<forall>e \<in> set (m_out_edges v). descriptor e \<in> edge_descriptors g \<longrightarrow> m_target e \<notin> U"
    and "(u, t) \<in> adj_rel g"
  shows "t \<notin> U"
  using assms unfolding adj_rel_def by auto

lemma snd_descriptor [simp]: "snd (descriptor e) = m_target e"
  by (simp add: descriptor_def)

lemma closed_reach:
  assumes cl: "\<forall>a t. (a, t) \<in> R \<longrightarrow> a \<notin> U \<longrightarrow> t \<notin> U" and x: "x \<notin> U"
    and r: "(x, y) \<in> R\<^sup>*"
  shows "y \<notin> U"
  using r x cl by (induction rule: rtrancl_induct) blast+


subsection \<open>The while loop of the breadth-first search\<close>

lemma bfs_edge_inv:
  assumes inv: "bfs_inv g x s (u # q) s1"
    and sub: "VU s \<subseteq> set (vertex_descriptors g)"
    and fv: "find_vertex g u = Some v"
    and e: "e \<in> set (m_out_edges v)"
    and step: "bfs_edge v (q, s1) e = (q', s2)"
  shows "bfs_inv g x s (u # q') s2 \<and> VU s2 \<subseteq> VU s1
         \<and> (descriptor e \<in> edge_descriptors g \<longrightarrow> m_target e \<notin> VU s2)"
proof (cases "descriptor e \<in> EU s1 \<and> m_target e \<in> VU s1")
  case False
  then have same: "q' = q" "s2 = s1"
    using step by (auto simp: bfs_edge_def Let_def split: if_splits)
  from inv have "edge_inv g s1" by (simp add: bfs_inv_def)
  have "m_target e \<notin> VU s1" if "descriptor e \<in> edge_descriptors g"
  proof (cases "descriptor e \<in> EU s1")
    case True
    with False show ?thesis by simp
  next
    case False
    with \<open>edge_inv g s1\<close> that have "snd (descriptor e) \<notin> VU s1"
      unfolding edge_inv_def by blast
    then show ?thesis by simp
  qed
  with inv same show ?thesis by simp
next
  case True
  let ?t = "m_target e"
  from True step have q': "q' = q @ [?t]"
    and s2: "s2 = s1\<lparr>edges_unexplored := removeAll (descriptor e) (edges_unexplored s1),
                     p := (p s1)(?t \<mapsto> m_descriptor v),
                     vertices_unexplored := removeAll ?t (vertices_unexplored s1)\<rparr>"
    by (auto simp: bfs_edge_def Let_def)
  from inv have i1: "set (u # q) \<subseteq> (adj_rel g)\<^sup>* `` {x}"
    and i2: "set (u # q) \<subseteq> set (vertex_descriptors g)"
    and i3: "VU s1 \<subseteq> VU s - {x}"
    and i4: "VU s - (adj_rel g)\<^sup>* `` {x} \<subseteq> VU s1"
    and i5: "\<forall>a t. (a, t) \<in> adj_rel g \<longrightarrow> a \<notin> VU s1 \<longrightarrow> a \<notin> set (u # q) \<longrightarrow> t \<notin> VU s1"
    and i6: "edge_inv g s1" and i7: "parents_set g x s s1"
    unfolding bfs_inv_def by blast+
  from True i3 sub have tV: "?t \<in> set (vertex_descriptors g)" by blast
  from True i6 have dE: "descriptor e \<in> edge_descriptors g" unfolding edge_inv_def by blast
  from adj_relI [OF fv e dE tV] have ut: "(u, ?t) \<in> adj_rel g" .
  from i1 have "(x, u) \<in> (adj_rel g)\<^sup>*" by simp
  with ut have tR: "?t \<in> (adj_rel g)\<^sup>* `` {x}" by (auto intro: rtrancl_into_rtrancl)
  have VU2: "VU s2 = VU s1 - {?t}" by (simp add: s2)
  have EU2: "EU s2 = EU s1 - {descriptor e}" by (simp add: s2)
  have P2: "p s2 = (p s1)(?t \<mapsto> m_descriptor v)" by (simp add: s2)
  have c1: "set (u # q') \<subseteq> (adj_rel g)\<^sup>* `` {x}" using i1 tR q' by auto
  have c2: "set (u # q') \<subseteq> set (vertex_descriptors g)" using i2 tV q' by auto
  have c3: "VU s2 \<subseteq> VU s - {x}" using i3 VU2 by blast
  have c4: "VU s - (adj_rel g)\<^sup>* `` {x} \<subseteq> VU s2" using i4 tR VU2 by blast
  have c5: "\<forall>a t. (a, t) \<in> adj_rel g \<longrightarrow> a \<notin> VU s2 \<longrightarrow> a \<notin> set (u # q') \<longrightarrow> t \<notin> VU s2"
    using i5 VU2 q' by auto
  have c6: "edge_inv g s2"
    using i6 unfolding edge_inv_def VU2 EU2 by (auto simp: descriptor_def)
  from find_vertex_Some [OF fv] i2 have "m_descriptor v \<in> set (vertex_descriptors g)"
    by simp
  then have c7: "parents_set g x s s2"
    using i7 i3 True unfolding parents_set_def VU2 P2 by auto
  have "bfs_inv g x s (u # q') s2"
    unfolding bfs_inv_def by (intro conjI c1 c2 c3 c4 c5 c6 c7)
  moreover have "VU s2 \<subseteq> VU s1" using VU2 by blast
  moreover have "m_target e \<notin> VU s2" using VU2 by blast
  ultimately show ?thesis by simp
qed

lemma bfs_adj_inv:
  assumes sub: "VU s \<subseteq> set (vertex_descriptors g)"
    and fv: "find_vertex g u = Some v"
  shows "bfs_inv g x s (u # q) s1 \<Longrightarrow> set es \<subseteq> set (m_out_edges v)
     \<Longrightarrow> foldl (bfs_edge v) (q, s1) es = (q', s2)
     \<Longrightarrow> bfs_inv g x s (u # q') s2 \<and> VU s2 \<subseteq> VU s1
         \<and> (\<forall>e \<in> set es. descriptor e \<in> edge_descriptors g \<longrightarrow> m_target e \<notin> VU s2)"
proof (induction es arbitrary: q s1)
  case Nil
  then show ?case by simp
next
  case (Cons e es)
  obtain q1 s3 where st: "bfs_edge v (q, s1) e = (q1, s3)"
    by (cases "bfs_edge v (q, s1) e")
  from Cons.prems have e: "e \<in> set (m_out_edges v)" and es: "set es \<subseteq> set (m_out_edges v)"
    by auto
  from bfs_edge_inv [OF Cons.prems(1) sub fv e st]
  have a: "bfs_inv g x s (u # q1) s3" and b: "VU s3 \<subseteq> VU s1"
    and c: "descriptor e \<in> edge_descriptors g \<longrightarrow> m_target e \<notin> VU s3" by blast+
  from Cons.prems(3) st have "foldl (bfs_edge v) (q1, s3) es = (q', s2)" by simp
  from Cons.IH [OF a es this]
  have d: "bfs_inv g x s (u # q') s2" and e': "VU s2 \<subseteq> VU s3"
    and f: "\<forall>e \<in> set es. descriptor e \<in> edge_descriptors g \<longrightarrow> m_target e \<notin> VU s2" by blast+
  from b e' have "VU s2 \<subseteq> VU s1" by blast
  moreover from c e' have "descriptor e \<in> edge_descriptors g \<longrightarrow> m_target e \<notin> VU s2" by blast
  ultimately show ?case using d f by simp
qed

lemma bfs_inv_dequeue:
  assumes inv: "bfs_inv g x s (u # q') s2"
    and fv: "find_vertex g u = Some v"
    and all: "\<forall>e \<in> set (m_out_edges v). descriptor e \<in> edge_descriptors g \<longrightarrow> m_target e \<notin> VU s2"
  shows "bfs_inv g x s q' s2"
proof -
  have ut: "t \<notin> VU s2" if "(u, t) \<in> adj_rel g" for t
    using that fv all unfolding adj_rel_def by auto
  from inv have i5: "\<forall>a t. (a, t) \<in> adj_rel g \<longrightarrow> a \<notin> VU s2 \<longrightarrow> a \<notin> set (u # q') \<longrightarrow> t \<notin> VU s2"
    unfolding bfs_inv_def by blast
  have c5: "\<forall>a t. (a, t) \<in> adj_rel g \<longrightarrow> a \<notin> VU s2 \<longrightarrow> a \<notin> set q' \<longrightarrow> t \<notin> VU s2"
  proof (intro allI impI)
    fix a t assume "(a, t) \<in> adj_rel g" "a \<notin> VU s2" "a \<notin> set q'"
    then show "t \<notin> VU s2" using ut i5 by (cases "a = u") auto
  qed
  from inv c5 show ?thesis unfolding bfs_inv_def by simp
qed

lemma bfs_while_inv:
  "VU s \<subseteq> set (vertex_descriptors g) \<Longrightarrow> bfs_inv g x s q s1
     \<Longrightarrow> \<exists>s'. bfs_while g q s1 = Some s' \<and> bfs_inv g x s [] s'"
proof (induction g q s1 rule: bfs_while.induct)
  case (1 g q s1)
  show ?case
  proof (cases q)
    case Nil
    with "1.prems" show ?thesis by (simp add: bfs_while.simps)
  next
    case (Cons u rest)
    note sub = "1.prems"(1) and inv = "1.prems"(2)
    from Cons inv have "u \<in> set (vertex_descriptors g)" by (auto simp: bfs_inv_def)
    then obtain v where fv: "find_vertex g u = Some v" using find_vertex_defined by blast
    obtain q' s2 where fold: "foldl (bfs_edge v) (rest, s1) (m_out_edges v) = (q', s2)"
      by (cases "foldl (bfs_edge v) (rest, s1) (m_out_edges v)")
    from inv Cons have "bfs_inv g x s (u # rest) s1" by simp
    from bfs_adj_inv [OF sub fv this subset_refl fold]
    have "bfs_inv g x s (u # q') s2"
      and "\<forall>e \<in> set (m_out_edges v). descriptor e \<in> edge_descriptors g \<longrightarrow> m_target e \<notin> VU s2"
      by blast+
    then have "bfs_inv g x s q' s2" using fv by (auto intro: bfs_inv_dequeue)
    from "1.IH" [OF Cons fv fold [symmetric] sub this]
    show ?thesis using Cons fv fold by (subst bfs_while.simps) simp
  qed
qed

lemma bfs_search_post:
  assumes x: "x \<in> VU s" and sub: "VU s \<subseteq> set (vertex_descriptors g)"
    and ei: "edge_inv g s" and cl: "closed g s"
  shows "\<exists>s'. bfs_while g [x] (s\<lparr>vertices_unexplored := removeAll x (vertices_unexplored s)\<rparr>)
            = Some s' \<and> search_post g x s s'"
proof -
  let ?s1 = "s\<lparr>vertices_unexplored := removeAll x (vertices_unexplored s)\<rparr>"
  have VU1: "VU ?s1 = VU s - {x}" by simp
  have "edge_inv g ?s1" using ei unfolding edge_inv_def by auto
  moreover have "parents_set g x s ?s1" unfolding parents_set_def by auto
  moreover have "\<forall>u t. (u, t) \<in> adj_rel g \<longrightarrow> u \<notin> VU ?s1 \<longrightarrow> u \<notin> set [x] \<longrightarrow> t \<notin> VU ?s1"
    using cl unfolding closed_def by auto
  ultimately have "bfs_inv g x s [x] ?s1"
    unfolding bfs_inv_def using x sub by auto
  from bfs_while_inv [OF sub this] obtain s' where
    run: "bfs_while g [x] ?s1 = Some s'" and inv: "bfs_inv g x s [] s'" by blast
  from inv have a: "VU s' \<subseteq> VU s - {x}" and b: "VU s - (adj_rel g)\<^sup>* `` {x} \<subseteq> VU s'"
    and c: "\<forall>a t. (a, t) \<in> adj_rel g \<longrightarrow> a \<notin> VU s' \<longrightarrow> t \<notin> VU s'"
    and d: "edge_inv g s'" and e: "parents_set g x s s'"
    unfolding bfs_inv_def by simp_all
  from a have "x \<notin> VU s'" by blast
  then have "y \<notin> VU s'" if "(x, y) \<in> (adj_rel g)\<^sup>*" for y
    using closed_reach [OF c _ that] by blast
  with a b have "VU s' = VU s - (adj_rel g)\<^sup>* `` {x}" by blast
  with d e run show ?thesis unfolding search_post_def by simp
qed


subsection \<open>The recursion of the depth-first search\<close>

lemma dfs_post_refl: "edge_inv g s \<Longrightarrow> dfs_post g u s s"
  unfolding dfs_post_def parents_set_def by blast

lemma edge_inv_erase_edge:
  assumes "edge_inv g s" and "m_target e \<notin> VU s"
  shows "edge_inv g (s\<lparr>edges_unexplored := removeAll (descriptor e) (edges_unexplored s)\<rparr>)"
  using assms unfolding edge_inv_def by auto

lemma edge_inv_discover:
  assumes "edge_inv g s"
  shows "edge_inv g (s\<lparr>edges_unexplored := removeAll (descriptor e) (edges_unexplored s),
            p := pm,
            vertices_unexplored := removeAll (m_target e) (vertices_unexplored s)\<rparr>)"
  using assms unfolding edge_inv_def by auto

lemma dfs_post_same_sets:
  assumes "dfs_post g u s1 s'" and "VU s = VU s1" and "p s = p s1"
  shows "dfs_post g u s s'"
  using assms unfolding dfs_post_def parents_set_def by simp

lemma dfs_post_compose:
  assumes t: "t \<in> VU s" and u: "u \<notin> VU s" and ut: "(u, t) \<in> adj_rel g"
    and s1: "VU s1 = VU s - {t}" "p s1 = (p s)(t \<mapsto> u)"
    and visit: "dfs_post g t s1 s2" and tcl: "\<forall>t'. (t, t') \<in> adj_rel g \<longrightarrow> t' \<notin> VU s2"
    and rest: "dfs_post g u s2 s'"
  shows "dfs_post g u s s'"
proof -
  from visit have v1: "VU s2 \<subseteq> VU s - {t}" and v2: "VU s - {t} - VU s2 \<subseteq> (adj_rel g)\<^sup>* `` {t}"
    and v3: "\<forall>w t'. w \<in> VU s - {t} \<and> w \<notin> VU s2 \<and> (w, t') \<in> adj_rel g \<longrightarrow> t' \<notin> VU s2"
    and v5: "parents_set g t s1 s2"
    unfolding dfs_post_def s1 by simp_all
  from rest have r1: "VU s' \<subseteq> VU s2" and r2: "VU s2 - VU s' \<subseteq> (adj_rel g)\<^sup>* `` {u}"
    and r3: "\<forall>w t'. w \<in> VU s2 \<and> w \<notin> VU s' \<and> (w, t') \<in> adj_rel g \<longrightarrow> t' \<notin> VU s'"
    and r4: "edge_inv g s'" and r5: "parents_set g u s2 s'"
    unfolding dfs_post_def by simp_all
  have c1: "VU s' \<subseteq> VU s" using v1 r1 by blast
  have "(adj_rel g)\<^sup>* `` {t} \<subseteq> (adj_rel g)\<^sup>* `` {u}"
    using ut by (auto intro: converse_rtrancl_into_rtrancl)
  moreover have "t \<in> (adj_rel g)\<^sup>* `` {u}" using ut by auto
  ultimately have c2: "VU s - VU s' \<subseteq> (adj_rel g)\<^sup>* `` {u}" using v2 r2 by blast
  have c3: "\<forall>w t'. w \<in> VU s \<and> w \<notin> VU s' \<and> (w, t') \<in> adj_rel g \<longrightarrow> t' \<notin> VU s'"
  proof (intro allI impI)
    fix w t' assume a: "w \<in> VU s \<and> w \<notin> VU s' \<and> (w, t') \<in> adj_rel g"
    show "t' \<notin> VU s'"
    proof (cases "w \<in> VU s2")
      case True
      with a r3 show ?thesis by blast
    next
      case False
      with a v3 tcl have "t' \<notin> VU s2" by (cases "w = t") blast+
      with r1 show ?thesis by blast
    qed
  qed
  have c5: "parents_set g u s s'"
    unfolding parents_set_def
  proof (intro conjI allI impI)
    fix v assume a: "v \<in> VU s \<and> v \<notin> VU s' \<and> v \<noteq> u"
    show "\<exists>y \<in> set (vertex_descriptors g). p s' v = Some y"
    proof (cases "v \<in> VU s2")
      case True
      with a r5 show ?thesis unfolding parents_set_def by blast
    next
      case False
      with r5 have eq: "p s' v = p s2 v" unfolding parents_set_def by blast
      show ?thesis
      proof (cases "v = t")
        case True
        with v5 have "p s2 v = p s1 v" unfolding parents_set_def by blast
        with eq True s1 adj_rel_dom [OF ut] show ?thesis by simp
      next
        case False
        with a \<open>v \<notin> VU s2\<close> v5 s1
        have "\<exists>y \<in> set (vertex_descriptors g). p s2 v = Some y"
          unfolding parents_set_def by auto
        with eq show ?thesis by simp
      qed
    qed
  next
    fix v assume a: "v \<notin> VU s \<or> v \<in> VU s' \<or> v = u"
    from a r1 v1 u have b: "v \<notin> VU s2 \<or> v \<in> VU s' \<or> v = u" by blast
    with r5 have e1: "p s' v = p s2 v" unfolding parents_set_def by blast
    from a r1 v1 u t have vt: "v \<noteq> t" by blast
    from a r1 v1 u have "v \<notin> VU s1 \<or> v \<in> VU s2 \<or> v = t" unfolding s1 by blast
    with v5 have "p s2 v = p s1 v" unfolding parents_set_def by blast
    with e1 vt s1 show "p s' v = p s v" by simp
  qed
  show ?thesis unfolding dfs_post_def by (intro conjI c1 c2 c3 r4 c5)
qed

lemma dfs_correct:
  "u \<in> set (vertex_descriptors g) \<Longrightarrow> VU s \<subseteq> set (vertex_descriptors g)
     \<Longrightarrow> edge_inv g (s\<lparr>vertices_unexplored := removeAll u (vertices_unexplored s)\<rparr>)
     \<Longrightarrow> \<exists>s'. dfs_visit g u s = Some s'
           \<and> dfs_post g u (s\<lparr>vertices_unexplored := removeAll u (vertices_unexplored s)\<rparr>) s'
           \<and> (\<forall>t. (u, t) \<in> adj_rel g \<longrightarrow> t \<notin> VU s')"
  "find_vertex g u = Some v \<Longrightarrow> set es \<subseteq> set (m_out_edges v) \<Longrightarrow> u \<notin> VU s
     \<Longrightarrow> VU s \<subseteq> set (vertex_descriptors g) \<Longrightarrow> edge_inv g s
     \<Longrightarrow> \<exists>s'. dfs_adj g u es s = Some s' \<and> dfs_post g u s s'
           \<and> (\<forall>e \<in> set es. descriptor e \<in> edge_descriptors g \<longrightarrow> m_target e \<notin> VU s')"
proof (induction g u s and g u es s arbitrary: and v rule: dfs_visit_dfs_adj.induct)
  case (1 g u s)
  let ?s1 = "s\<lparr>vertices_unexplored := removeAll u (vertices_unexplored s)\<rparr>"
  from "1.prems"(1) obtain v where fv: "find_vertex g u = Some v"
    using find_vertex_defined by blast
  have "u \<notin> VU ?s1" and "VU ?s1 \<subseteq> set (vertex_descriptors g)"
    using "1.prems"(2) by auto
  from "1.IH" [OF fv fv subset_refl this "1.prems"(3)] obtain s' where
    run: "dfs_adj g u (m_out_edges v) ?s1 = Some s'" and post: "dfs_post g u ?s1 s'"
    and all: "\<forall>e \<in> set (m_out_edges v). descriptor e \<in> edge_descriptors g \<longrightarrow> m_target e \<notin> VU s'"
    by blast
  from run fv have "dfs_visit g u s = Some s'" by (simp add: dfs_visit.simps)
  moreover have "\<forall>t. (u, t) \<in> adj_rel g \<longrightarrow> t \<notin> VU s'"
    using adj_rel_out_edges [OF fv all] by blast
  ultimately show ?case using post by blast
next
  case (2 g u s)
  then show ?case by (simp add: dfs_post_refl)
next
  case (3 g u aei rest s)
  note fv = "3.prems"(1) and u = "3.prems"(3) and sub = "3.prems"(4) and ei = "3.prems"(5)
  from "3.prems"(2) have aei: "aei \<in> set (m_out_edges v)" and rest: "set rest \<subseteq> set (m_out_edges v)"
    by auto
  let ?d = "descriptor aei" and ?t = "m_target aei"
  show ?case
  proof (cases "?d \<in> EU s")
    case False
    from "3.IH"(4) [OF False fv rest u sub ei] obtain s' where
      run: "dfs_adj g u rest s = Some s'" and post: "dfs_post g u s s'"
      and all: "\<forall>e \<in> set rest. descriptor e \<in> edge_descriptors g \<longrightarrow> m_target e \<notin> VU s'"
      by blast
    have "?t \<notin> VU s" if "?d \<in> edge_descriptors g"
      using ei that False unfolding edge_inv_def by (metis snd_descriptor)
    moreover from post have "VU s' \<subseteq> VU s" unfolding dfs_post_def by blast
    ultimately have "?d \<in> edge_descriptors g \<longrightarrow> ?t \<notin> VU s'" by blast
    with run post all False show ?thesis by simp
  next
    case True
    note inE = this
    let ?s1 = "s\<lparr>edges_unexplored := removeAll ?d (edges_unexplored s)\<rparr>"
    show ?thesis
    proof (cases "?t \<in> VU s")
      case False
      then have nt: "?t \<notin> VU ?s1" by simp
      have ei1: "edge_inv g ?s1" using ei False by (rule edge_inv_erase_edge)
      have u1: "u \<notin> VU ?s1" and sub1: "VU ?s1 \<subseteq> set (vertex_descriptors g)"
        using u sub by simp_all
      from "3.IH"(3) [OF inE refl refl nt fv rest u1 sub1 ei1] obtain s' where
        run: "dfs_adj g u rest ?s1 = Some s'" and post: "dfs_post g u ?s1 s'"
        and all: "\<forall>e \<in> set rest. descriptor e \<in> edge_descriptors g \<longrightarrow> m_target e \<notin> VU s'"
        by blast
      from post have post': "dfs_post g u s s'" by (rule dfs_post_same_sets) simp_all
      then have "VU s' \<subseteq> VU s" unfolding dfs_post_def by blast
      with False have "?t \<notin> VU s'" by blast
      with run post' all inE False show ?thesis by (simp add: Let_def)
    next
      case True
      then have tin: "?t \<in> VU ?s1" by simp
      let ?s1p = "?s1\<lparr>p := (p ?s1)(?t \<mapsto> u)\<rparr>"
      let ?s1t = "?s1p\<lparr>vertices_unexplored := removeAll ?t (vertices_unexplored ?s1p)\<rparr>"
      from True sub have tV: "?t \<in> set (vertex_descriptors g)" by blast
      from inE ei have dE: "?d \<in> edge_descriptors g" unfolding edge_inv_def by blast
      have ut: "(u, ?t) \<in> adj_rel g" using fv aei dE tV by (rule adj_relI)
      have subp: "VU ?s1p \<subseteq> set (vertex_descriptors g)" using sub by simp
      have "edge_inv g ?s1t" using edge_inv_discover [OF ei, of aei "(p s)(?t \<mapsto> u)"]
        by simp
      from "3.IH"(1) [OF inE refl refl tin tV subp this] obtain s2 where
        run2: "dfs_visit g ?t ?s1p = Some s2" and post2: "dfs_post g ?t ?s1t s2"
        and tcl: "\<forall>t'. (?t, t') \<in> adj_rel g \<longrightarrow> t' \<notin> VU s2"
        by blast
      from post2 have VU2: "VU s2 \<subseteq> VU s - {?t}" and ei2: "edge_inv g s2"
        unfolding dfs_post_def by simp_all
      from VU2 u sub have u2: "u \<notin> VU s2" and sub2: "VU s2 \<subseteq> set (vertex_descriptors g)"
        by blast+
      from "3.IH"(2) [OF inE refl refl tin run2 fv rest u2 sub2 ei2] obtain s' where
        run: "dfs_adj g u rest s2 = Some s'" and post: "dfs_post g u s2 s'"
        and all: "\<forall>e \<in> set rest. descriptor e \<in> edge_descriptors g \<longrightarrow> m_target e \<notin> VU s'"
        by blast
      have post': "dfs_post g u s s'"
        using True u ut _ _ post2 tcl post by (rule dfs_post_compose) simp_all
      from post have "VU s' \<subseteq> VU s2" unfolding dfs_post_def by blast
      with VU2 have "?t \<notin> VU s'" by blast
      with run run2 post' all inE True show ?thesis by (simp add: Let_def)
    qed
  qed
qed

lemma dfs_search_post:
  assumes x: "x \<in> VU s" and sub: "VU s \<subseteq> set (vertex_descriptors g)"
    and ei: "edge_inv g s" and cl: "closed g s"
  shows "\<exists>s'. dfs_visit g x s = Some s' \<and> search_post g x s s'"
proof -
  let ?s1 = "s\<lparr>vertices_unexplored := removeAll x (vertices_unexplored s)\<rparr>"
  have "edge_inv g ?s1" using ei unfolding edge_inv_def by auto
  from dfs_correct(1) [OF _ sub this] x sub obtain s' where
    run: "dfs_visit g x s = Some s'" and post: "dfs_post g x ?s1 s'"
    and xcl: "\<forall>t. (x, t) \<in> adj_rel g \<longrightarrow> t \<notin> VU s'"
    by blast
  from post have a: "VU s' \<subseteq> VU s - {x}" and b: "VU s - {x} - VU s' \<subseteq> (adj_rel g)\<^sup>* `` {x}"
    and c: "\<forall>w t. w \<in> VU s - {x} \<and> w \<notin> VU s' \<and> (w, t) \<in> adj_rel g \<longrightarrow> t \<notin> VU s'"
    and d: "edge_inv g s'" and e: "parents_set g x ?s1 s'"
    unfolding dfs_post_def by simp_all
  have cl': "\<forall>a t. (a, t) \<in> adj_rel g \<longrightarrow> a \<notin> VU s' \<longrightarrow> t \<notin> VU s'"
  proof (intro allI impI)
    fix a t assume at: "(a, t) \<in> adj_rel g" and "a \<notin> VU s'"
    show "t \<notin> VU s'"
    proof (cases "a \<in> VU s")
      case True
      with at \<open>a \<notin> VU s'\<close> c xcl show ?thesis by (cases "a = x") blast+
    next
      case False
      with cl at have "t \<notin> VU s" unfolding closed_def by blast
      with a show ?thesis by blast
    qed
  qed
  from a have "x \<notin> VU s'" by blast
  then have "y \<notin> VU s'" if "(x, y) \<in> (adj_rel g)\<^sup>*" for y
    using closed_reach [OF cl' _ that] by blast
  with a b have "VU s' = VU s - (adj_rel g)\<^sup>* `` {x}" by blast
  moreover have "parents_set g x s s'"
    using e a unfolding parents_set_def by auto
  ultimately show ?thesis using run d unfolding search_post_def by simp
qed


subsection \<open>The loop over the vertices\<close>

lemma bfs_components_scan:
  "bfs_components g vis s =
     scan (\<lambda>vd s. bfs_while g [vd]
                    (s\<lparr>vertices_unexplored := removeAll vd (vertices_unexplored s)\<rparr>))
       (map m_descriptor vis) s"
  by (induction vis arbitrary: s) (auto simp: Let_def split: option.splits)

lemma dfs_components_scan:
  "dfs_components g vis s = scan (dfs_visit g) (map m_descriptor vis) s"
  by (induction vis arbitrary: s) (auto simp: Let_def split: option.splits)

lemma find_append:
  "List.find P (xs @ ys) = (case List.find P xs of None \<Rightarrow> List.find P ys | Some x \<Rightarrow> Some x)"
  by (induction xs) auto

lemma first_reaching_snoc:
  "first_reaching g (ds @ [x]) v \<longleftrightarrow>
     first_reaching g ds v \<or> (v = x \<and> x \<notin> (adj_rel g)\<^sup>* `` set ds)"
proof (cases "List.find (\<lambda>u. (u, v) \<in> (adj_rel g)\<^sup>*) ds")
  case None
  then have no: "\<forall>u \<in> set ds. (u, v) \<notin> (adj_rel g)\<^sup>*" by (simp add: find_None_iff)
  show ?thesis
  proof (cases "v = x")
    case True
    with None no show ?thesis by (auto simp: first_reaching_def find_append)
  next
    case False
    with None show ?thesis by (auto simp: first_reaching_def find_append)
  qed
next
  case (Some w)
  then have "w \<in> set ds" and "(w, v) \<in> (adj_rel g)\<^sup>*" by (auto simp: find_Some_iff)
  then have "v \<in> (adj_rel g)\<^sup>* `` set ds" by blast
  with Some show ?thesis by (auto simp: first_reaching_def find_append)
qed

lemma scan_inv_closed:
  assumes "scan_inv g ds s"
  shows "closed g s"
  unfolding closed_def
proof (intro allI impI)
  fix a t assume at: "(a, t) \<in> adj_rel g" and "a \<notin> VU s"
  with assms adj_rel_dom [OF at] have "a \<in> (adj_rel g)\<^sup>* `` set ds"
    unfolding scan_inv_def by blast
  with at have "t \<in> (adj_rel g)\<^sup>* `` set ds" by (auto intro: rtrancl_into_rtrancl)
  with assms show "t \<notin> VU s" unfolding scan_inv_def by blast
qed

lemma reach_snoc:
  "(adj_rel g)\<^sup>* `` set (ds @ [x]) = (adj_rel g)\<^sup>* `` set ds \<union> (adj_rel g)\<^sup>* `` {x}"
  by auto

lemma scan_inv_skip:
  assumes inv: "scan_inv g ds s" and x: "x \<in> set (vertex_descriptors g)" and nx: "x \<notin> VU s"
  shows "scan_inv g (ds @ [x]) s"
proof -
  from inv x nx have xr: "x \<in> (adj_rel g)\<^sup>* `` set ds" unfolding scan_inv_def by blast
  then have "(adj_rel g)\<^sup>* `` {x} \<subseteq> (adj_rel g)\<^sup>* `` set ds"
    by (auto intro: rtrancl_trans)
  then have r: "(adj_rel g)\<^sup>* `` set (ds @ [x]) = (adj_rel g)\<^sup>* `` set ds"
    unfolding reach_snoc by blast
  have f: "first_reaching g (ds @ [x]) v \<longleftrightarrow> first_reaching g ds v" for v
    using xr by (simp add: first_reaching_snoc)
  from inv show ?thesis unfolding scan_inv_def r f .
qed

lemma scan_inv_root:
  assumes inv: "scan_inv g ds s" and x: "x \<in> VU s" and post: "search_post g x s s'"
  shows "scan_inv g (ds @ [x]) s'"
proof -
  from inv have i1: "VU s = set (vertex_descriptors g) - (adj_rel g)\<^sup>* `` set ds"
    and i3: "dom (p s) = set (vertex_descriptors g)"
    unfolding scan_inv_def by simp_all
  from post have p1: "VU s' = VU s - (adj_rel g)\<^sup>* `` {x}" and p2: "edge_inv g s'"
    and p3: "\<forall>v. v \<in> VU s \<and> v \<notin> VU s' \<and> v \<noteq> x
               \<longrightarrow> (\<exists>y \<in> set (vertex_descriptors g). p s' v = Some y)"
    and p4: "\<forall>v. v \<notin> VU s \<or> v \<in> VU s' \<or> v = x \<longrightarrow> p s' v = p s v"
    unfolding search_post_def parents_set_def by simp_all
  from x i1 have xnr: "x \<notin> (adj_rel g)\<^sup>* `` set ds" by blast
  have c1: "VU s' = set (vertex_descriptors g) - (adj_rel g)\<^sup>* `` set (ds @ [x])"
    unfolding reach_snoc p1 i1 by blast
  have c3: "dom (p s') = set (vertex_descriptors g)"
  proof (rule set_eqI)
    fix v
    show "v \<in> dom (p s') \<longleftrightarrow> v \<in> set (vertex_descriptors g)"
    proof (cases "v \<in> VU s \<and> v \<notin> VU s' \<and> v \<noteq> x")
      case True
      with p3 i1 show ?thesis by auto
    next
      case False
      with p4 have "p s' v = p s v" by blast
      with i3 show ?thesis by (auto simp: dom_def)
    qed
  qed
  have c4: "- 1 \<notin> set (vertex_descriptors g)
      \<longrightarrow> (\<forall>v. p s' v = Some (- 1) \<longleftrightarrow> v \<in> VU s' \<or> first_reaching g (ds @ [x]) v)"
  proof (intro impI allI)
    fix v
    assume ns: "- 1 \<notin> set (vertex_descriptors g)"
    with inv have i4: "\<forall>v. p s v = Some (- 1) \<longleftrightarrow> v \<in> VU s \<or> first_reaching g ds v"
      unfolding scan_inv_def by simp
    show "p s' v = Some (- 1) \<longleftrightarrow> v \<in> VU s' \<or> first_reaching g (ds @ [x]) v"
    proof (cases "v \<in> VU s \<and> v \<notin> VU s' \<and> v \<noteq> x")
      case True
      with p3 obtain y where "y \<in> set (vertex_descriptors g)" and "p s' v = Some y"
        by blast
      with ns have "p s' v \<noteq> Some (- 1)" by auto
      moreover from True i4 have "p s v = Some (- 1)" by blast
      moreover have "\<not> first_reaching g ds v"
      proof
        assume "first_reaching g ds v"
        then have "v \<in> set ds" unfolding first_reaching_def by (auto simp: find_Some_iff)
        then have "v \<in> (adj_rel g)\<^sup>* `` set ds" by blast
        with True i1 show False by blast
      qed
      ultimately show ?thesis using True xnr by (simp add: first_reaching_snoc)
    next
      case False
      with p4 have eq: "p s' v = p s v" by blast
      show ?thesis
      proof (cases "v = x")
        case True
        with eq i4 x xnr show ?thesis by (simp add: first_reaching_snoc)
      next
        case False
        note vx = this
        show ?thesis
        proof (cases "v \<in> VU s")
          case True
          with \<open>\<not> (v \<in> VU s \<and> v \<notin> VU s' \<and> v \<noteq> x)\<close> vx have "v \<in> VU s'" by blast
          with eq i4 True show ?thesis by simp
        next
          case False
          with p1 have "v \<notin> VU s'" by blast
          with eq i4 False vx show ?thesis by (simp add: first_reaching_snoc)
        qed
      qed
    qed
  qed
  show ?thesis unfolding scan_inv_def by (intro conjI c1 p2 c3 c4)
qed

lemma scan_correct:
  assumes search: "\<And>x s. x \<in> VU s \<Longrightarrow> VU s \<subseteq> set (vertex_descriptors g) \<Longrightarrow> edge_inv g s
      \<Longrightarrow> closed g s \<Longrightarrow> \<exists>s'. f x s = Some s' \<and> search_post g x s s'"
  shows "scan_inv g ds s \<Longrightarrow> set xs \<subseteq> set (vertex_descriptors g)
     \<Longrightarrow> \<exists>s'. scan f xs s = Some s' \<and> scan_inv g (ds @ xs) s'"
proof (induction xs arbitrary: ds s)
  case Nil
  then show ?case by simp
next
  case (Cons x xs)
  from Cons.prems have xV: "x \<in> set (vertex_descriptors g)"
    and xs: "set xs \<subseteq> set (vertex_descriptors g)" by auto
  show ?case
  proof (cases "x \<in> VU s")
    case False
    from scan_inv_skip [OF Cons.prems(1) xV False] have "scan_inv g (ds @ [x]) s" .
    from Cons.IH [OF this xs] False show ?thesis by simp
  next
    case True
    from Cons.prems(1) have "VU s \<subseteq> set (vertex_descriptors g)" and "edge_inv g s"
      unfolding scan_inv_def by blast+
    from search [OF True this scan_inv_closed [OF Cons.prems(1)]] obtain s1 where
      run: "f x s = Some s1" and post: "search_post g x s s1" by blast
    from scan_inv_root [OF Cons.prems(1) True post] have "scan_inv g (ds @ [x]) s1" .
    from Cons.IH [OF this xs] run True show ?thesis by simp
  qed
qed

lemma scan_inv_initialize: "scan_inv g [] (initialize g)"
proof -
  have "VU (initialize g) = set (vertex_descriptors g) - (adj_rel g)\<^sup>* `` set []"
    by (simp add: initialize_state)
  moreover have "edge_inv g (initialize g)"
    unfolding edge_inv_def by (simp add: initialize_state)
  moreover have "dom (p (initialize g)) = set (vertex_descriptors g)"
    unfolding dom_def by (simp add: initialize_state)
  moreover have "\<forall>v. p (initialize g) v = Some (- 1)
      \<longleftrightarrow> v \<in> VU (initialize g) \<or> first_reaching g [] v"
    unfolding first_reaching_def by (simp add: initialize_state)
  ultimately show ?thesis unfolding scan_inv_def by simp
qed

lemma scan_inv_final:
  assumes "scan_inv g (vertex_descriptors g) s"
  shows "VU s = {} \<and> dom (p s) = set (vertex_descriptors g)
         \<and> (- 1 \<notin> set (vertex_descriptors g)
              \<longrightarrow> (\<forall>v. p s v = Some (- 1) \<longleftrightarrow> first_reaching g (vertex_descriptors g) v))"
proof -
  have "v \<in> (adj_rel g)\<^sup>* `` set (vertex_descriptors g)"
    if "v \<in> set (vertex_descriptors g)" for v
    using that by (rule ImageI [OF rtrancl_refl])
  moreover from assms
  have "VU s = set (vertex_descriptors g) - (adj_rel g)\<^sup>* `` set (vertex_descriptors g)"
    unfolding scan_inv_def by (rule conjunct1)
  ultimately have "VU s = {}" by auto
  with assms show ?thesis unfolding scan_inv_def by simp
qed

lemma bfs_run_correct:
  "\<exists>s. bfs_run g = Some s \<and> VU s = {} \<and> dom (p s) = set (vertex_descriptors g)
       \<and> (- 1 \<notin> set (vertex_descriptors g)
            \<longrightarrow> (\<forall>v. p s v = Some (- 1) \<longleftrightarrow> first_reaching g (vertex_descriptors g) v))"
proof -
  let ?f = "\<lambda>vd s. bfs_while g [vd]
                    (s\<lparr>vertices_unexplored := removeAll vd (vertices_unexplored s)\<rparr>)"
  have "\<exists>s'. ?f x s = Some s' \<and> search_post g x s s'"
    if "x \<in> VU s" "VU s \<subseteq> set (vertex_descriptors g)" "edge_inv g s" "closed g s" for x s
    using that by (rule bfs_search_post)
  from scan_correct [where f = ?f and g = g and ds = "[]" and s = "initialize g"
      and xs = "vertex_descriptors g", OF this scan_inv_initialize]
  obtain s where "scan ?f (vertex_descriptors g) (initialize g) = Some s"
    and "scan_inv g (vertex_descriptors g) s" by auto
  then have "bfs_run g = Some s"
    by (simp add: bfs_run_def bfs_components_scan vertex_descriptors_def)
  with scan_inv_final [OF \<open>scan_inv g (vertex_descriptors g) s\<close>] show ?thesis by blast
qed

lemma dfs_run_correct:
  "\<exists>s. dfs_run g = Some s \<and> VU s = {} \<and> dom (p s) = set (vertex_descriptors g)
       \<and> (- 1 \<notin> set (vertex_descriptors g)
            \<longrightarrow> (\<forall>v. p s v = Some (- 1) \<longleftrightarrow> first_reaching g (vertex_descriptors g) v))"
proof -
  have "\<exists>s'. dfs_visit g x s = Some s' \<and> search_post g x s s'"
    if "x \<in> VU s" "VU s \<subseteq> set (vertex_descriptors g)" "edge_inv g s" "closed g s" for x s
    using that by (rule dfs_search_post)
  from scan_correct [where f = "dfs_visit g" and g = g and ds = "[]" and s = "initialize g"
      and xs = "vertex_descriptors g", OF this scan_inv_initialize]
  obtain s where "scan (dfs_visit g) (vertex_descriptors g) (initialize g) = Some s"
    and "scan_inv g (vertex_descriptors g) s" by auto
  then have "dfs_run g = Some s"
    by (simp add: dfs_run_def dfs_components_scan vertex_descriptors_def)
  with scan_inv_final [OF \<open>scan_inv g (vertex_descriptors g) s\<close>] show ?thesis by blast
qed

lemma search_parent_map_general:
  "\<exists>pb pd. breadth_first_search g = Some pb \<and> depth_first_search g = Some pd
     \<and> dom pb = set (vertex_descriptors g) \<and> dom pd = set (vertex_descriptors g)
     \<and> (- 1 \<notin> set (vertex_descriptors g) \<longrightarrow>
          (\<forall>v. pb v = Some (- 1) \<longleftrightarrow> first_reaching g (vertex_descriptors g) v)
          \<and> (\<forall>v. pd v = Some (- 1) \<longleftrightarrow> first_reaching g (vertex_descriptors g) v))"
proof -
  from bfs_run_correct [of g] obtain sb where "bfs_run g = Some sb"
    and "dom (p sb) = set (vertex_descriptors g)"
    and "- 1 \<notin> set (vertex_descriptors g)
         \<longrightarrow> (\<forall>v. p sb v = Some (- 1) \<longleftrightarrow> first_reaching g (vertex_descriptors g) v)"
    by blast
  moreover from dfs_run_correct [of g] obtain sd where "dfs_run g = Some sd"
    and "dom (p sd) = set (vertex_descriptors g)"
    and "- 1 \<notin> set (vertex_descriptors g)
         \<longrightarrow> (\<forall>v. p sd v = Some (- 1) \<longleftrightarrow> first_reaching g (vertex_descriptors g) v)"
    by blast
  ultimately show ?thesis
    unfolding breadth_first_search_def depth_first_search_def by simp
qed


subsection \<open>Roots and components\<close>

lemma wf_adj_rel:
  assumes "wf_graph g"
  shows "adj_rel g = edge_descriptors g"
proof (rule set_eqI, clarify)
  fix u t
  show "(u, t) \<in> adj_rel g \<longleftrightarrow> (u, t) \<in> edge_descriptors g"
  proof
    assume "(u, t) \<in> adj_rel g"
    then obtain v e where fv: "find_vertex g u = Some v" and e: "e \<in> set (m_out_edges v)"
      and t: "m_target e = t"
      unfolding adj_rel_def by blast
    from find_vertex_Some [OF fv] have v: "m_descriptor v = u" "v \<in> set (m_vertices g)" by simp_all
    with assms e have "e \<in> set (m_edges g)" and "m_source e = u"
      unfolding wf_graph_def by auto
    with t show "(u, t) \<in> edge_descriptors g"
      unfolding edge_descriptors_def descriptor_def by force
  next
    assume "(u, t) \<in> edge_descriptors g"
    then obtain e where e: "e \<in> set (m_edges g)" and d: "descriptor e = (u, t)"
      unfolding edge_descriptors_def by auto
    then have su: "m_source e = u" and tt: "m_target e = t" by (simp_all add: descriptor_def)
    from assms e su tt have uV: "u \<in> set (vertex_descriptors g)"
      and tV: "t \<in> set (vertex_descriptors g)"
      unfolding wf_graph_def by auto
    from find_vertex_defined [OF uV] obtain v where fv: "find_vertex g u = Some v" by blast
    from find_vertex_Some [OF fv] have v: "m_descriptor v = u" "v \<in> set (m_vertices g)" by simp_all
    with assms e su have "e \<in> set (m_out_edges v)" unfolding wf_graph_def by auto
    moreover from e have "descriptor e \<in> edge_descriptors g"
      unfolding edge_descriptors_def by simp
    ultimately have "(u, m_target e) \<in> adj_rel g" using fv tV tt by (intro adj_relI) simp_all
    with tt show "(u, t) \<in> adj_rel g" by simp
  qed
qed

lemma undirected_sym:
  assumes "undirected g"
  shows "sym ((edge_descriptors g)\<^sup>*)"
proof -
  have "sym (edge_descriptors g)"
    using assms unfolding undirected_def sym_def edge_descriptors_def descriptor_def by auto
  then show ?thesis by (rule sym_rtrancl)
qed

lemma equiv_connected: "equiv (set (vertex_descriptors g)) (connected g)"
proof (rule equivI)
  show "connected g \<subseteq> set (vertex_descriptors g) \<times> set (vertex_descriptors g)"
    unfolding connected_def by auto
  show "refl_on (set (vertex_descriptors g)) (connected g)"
    unfolding refl_on_def connected_def by auto
  show "sym (connected g)" unfolding sym_def connected_def by auto
  show "trans (connected g)" unfolding trans_def connected_def by (auto intro: rtrancl_trans)
qed

lemma card_first_of_class:
  assumes eq: "equiv (set ds) r"
  shows "card {v. List.find (\<lambda>u. (u, v) \<in> r) ds = Some v} = card (set ds // r)"
proof -
  let ?R = "{v. List.find (\<lambda>u. (u, v) \<in> r) ds = Some v}"
  have same: "(\<lambda>u. (u, v) \<in> r) = (\<lambda>u. (u, w) \<in> r)" if "(v, w) \<in> r" for v w
  proof
    fix u
    from eq that have "(w, v) \<in> r" by (meson equivE symD)
    with eq that show "((u, v) \<in> r) = ((u, w) \<in> r)" by (meson equivE transD)
  qed
  have "bij_betw (\<lambda>v. r `` {v}) ?R (set ds // r)"
    unfolding bij_betw_def
  proof
    show "inj_on (\<lambda>v. r `` {v}) ?R"
    proof (rule inj_onI)
      fix v w assume v: "v \<in> ?R" and w: "w \<in> ?R" and cls: "r `` {v} = r `` {w}"
      from w have "w \<in> set ds" by (auto simp: find_Some_iff)
      with eq cls have "(v, w) \<in> r" by (simp add: eq_equiv_class)
      from same [OF this] v w show "v = w" by simp
    qed
  next
    show "(\<lambda>v. r `` {v}) ` ?R = set ds // r"
    proof (rule set_eqI)
      fix C
      show "C \<in> (\<lambda>v. r `` {v}) ` ?R \<longleftrightarrow> C \<in> set ds // r"
      proof
        assume "C \<in> (\<lambda>v. r `` {v}) ` ?R"
        then obtain v where v: "v \<in> ?R" and C: "C = r `` {v}" by blast
        from v have "v \<in> set ds" by (auto simp: find_Some_iff)
        with C show "C \<in> set ds // r" by (simp add: quotientI)
      next
        assume "C \<in> set ds // r"
        then obtain v where v: "v \<in> set ds" and C: "C = r `` {v}" by (auto elim: quotientE)
        from eq v have "(v, v) \<in> r" by (meson equivE refl_onD)
        with v obtain w where w: "List.find (\<lambda>u. (u, v) \<in> r) ds = Some w"
          by (cases "List.find (\<lambda>u. (u, v) \<in> r) ds") (auto simp: find_None_iff)
        then have wv: "(w, v) \<in> r" by (auto simp: find_Some_iff)
        from same [OF this] w have "w \<in> ?R" by simp
        moreover from eq wv have "r `` {w} = r `` {v}" by (rule equiv_class_eq)
        ultimately show "C \<in> (\<lambda>v. r `` {v}) ` ?R" using C by blast
      qed
    qed
  qed
  then show ?thesis by (rule bij_betw_same_card)
qed

lemma card_component_roots: "card {v. component_root g v} = card (components g)"
  unfolding component_root_def components_def
  by (rule card_first_of_class [OF equiv_connected])

lemma first_reaching_root:
  assumes wf: "wf_graph g" and un: "undirected g"
  shows "first_reaching g (vertex_descriptors g) v \<longleftrightarrow> component_root g v"
proof (cases "v \<in> set (vertex_descriptors g)")
  case False
  then show ?thesis
    unfolding first_reaching_def component_root_def by (auto simp: find_Some_iff)
next
  case True
  have "((u, v) \<in> (adj_rel g)\<^sup>*) = ((u, v) \<in> connected g)"
    if "u \<in> set (vertex_descriptors g)" for u
    using that True undirected_sym [OF un]
    unfolding wf_adj_rel [OF wf] connected_def by (auto dest: symD)
  then have "List.find (\<lambda>u. (u, v) \<in> (adj_rel g)\<^sup>*) (vertex_descriptors g)
           = List.find (\<lambda>u. (u, v) \<in> connected g) (vertex_descriptors g)"
    by (intro find_cong) simp_all
  then show ?thesis unfolding first_reaching_def component_root_def by simp
qed

lemma directed_components: "components directed_graph = {{0}, {1}}"
proof -
  have ds: "set (vertex_descriptors directed_graph) = {0, 1}"
    by (auto simp: vertex_descriptors_def directed_graph_def new_vertex_def)
  have es: "edge_descriptors directed_graph = {(0, 1)}"
    by (simp add: edge_descriptors_def directed_graph_def new_edge_def descriptor_def)
  have no: "(1, 0) \<notin> {(0 :: vertex_descriptor, 1 :: vertex_descriptor)}\<^sup>*"
    by (auto elim: converse_rtranclE)
  have "connected directed_graph = {(0, 0), (1, 1)}"
    unfolding connected_def ds es using no by auto
  then show ?thesis unfolding components_def ds quotient_def by auto
qed


section \<open>The parent maps\<close>

text \<open>
  C5 as stated fails on a directed graph. With the vertices 0 and 1 and the single edge
  (0,1), vertex 1 does not reach vertex 0, so the graph has the two components {0} and
  {1}; both searches return a parent map with parent[1] = 0 and one sentinel entry.
\<close>

theorem directed_edge_one_root_two_components:
  "wf_graph directed_graph
   \<and> card (components directed_graph) = 2
   \<and> (\<exists>pb. breadth_first_search directed_graph = Some pb \<and> pb 1 = Some 0
         \<and> card {v. pb v = Some (- 1)} = 1)
   \<and> (\<exists>pd. depth_first_search directed_graph = Some pd \<and> pd 1 = Some 0
         \<and> card {v. pd v = Some (- 1)} = 1)"
proof -
  have wf: "wf_graph directed_graph" by code_simp
  have ds: "set (vertex_descriptors directed_graph) = {0, 1}"
    by (auto simp: vertex_descriptors_def directed_graph_def new_vertex_def)
  have k: "card (components directed_graph) = 2"
    unfolding directed_components by simp
  have evb: "case breadth_first_search directed_graph of
               None \<Rightarrow> False | Some pm \<Rightarrow> pm 0 = Some (- 1) \<and> pm 1 = Some 0"
    by code_simp
  have evd: "case depth_first_search directed_graph of
               None \<Rightarrow> False | Some pm \<Rightarrow> pm 0 = Some (- 1) \<and> pm 1 = Some 0"
    by code_simp
  from search_parent_map_general [of directed_graph] obtain pb pd where
    b: "breadth_first_search directed_graph = Some pb"
    and d: "depth_first_search directed_graph = Some pd"
    and db: "dom pb = {0, 1}" and dd: "dom pd = {0, 1}"
    unfolding ds by blast
  from evb b have pb: "pb 0 = Some (- 1)" "pb 1 = Some 0" by simp_all
  from evd d have pd: "pd 0 = Some (- 1)" "pd 1 = Some 0" by simp_all
  have "{v. pb v = Some (- 1)} = {0}"
  proof (rule set_eqI)
    fix v
    have "v \<in> {0, 1}" if "pb v = Some (- 1)" using that db by blast
    with pb show "v \<in> {v. pb v = Some (- 1)} \<longleftrightarrow> v \<in> {0}" by auto
  qed
  then have cb: "card {v. pb v = Some (- 1)} = 1" by simp
  have "{v. pd v = Some (- 1)} = {0}"
  proof (rule set_eqI)
    fix v
    have "v \<in> {0, 1}" if "pd v = Some (- 1)" using that dd by blast
    with pd show "v \<in> {v. pd v = Some (- 1)} \<longleftrightarrow> v \<in> {0}" by auto
  qed
  then have cd: "card {v. pd v = Some (- 1)} = 1" by simp
  from wf k b d pb pd cb cd show ?thesis by simp
qed

text \<open>
  The sentinel is stored as a descriptor, the largest one, and a vertex may have it. On
  the undirected graph with the vertices \<^verbatim>\<open>SIZE_MAX\<close> and 0, in this order, joined by an
  edge, both searches set parent[0] to the descriptor of its discoverer, which is the
  sentinel: one component, two sentinel entries.
\<close>

theorem sentinel_descriptor_two_sentinel_entries:
  "wf_graph sentinel_graph \<and> undirected sentinel_graph
   \<and> card (components sentinel_graph) = 1
   \<and> (\<exists>pb. breadth_first_search sentinel_graph = Some pb
         \<and> pb (- 1) = Some (- 1) \<and> pb 0 = Some (- 1)
         \<and> card {v. pb v = Some (- 1)} = 2)
   \<and> (\<exists>pd. depth_first_search sentinel_graph = Some pd
         \<and> pd (- 1) = Some (- 1) \<and> pd 0 = Some (- 1)
         \<and> card {v. pd v = Some (- 1)} = 2)"
proof -
  have wf: "wf_graph sentinel_graph" by code_simp
  have un: "undirected sentinel_graph" by code_simp
  have ds: "set (vertex_descriptors sentinel_graph) = {- 1, 0}"
    by (simp add: vertex_descriptors_def sentinel_graph_def new_vertex_def)
  have es: "edge_descriptors sentinel_graph = {(- 1, 0), (0, - 1)}"
    by (simp add: edge_descriptors_def sentinel_graph_def new_edge_def descriptor_def)
  have "connected sentinel_graph = {- 1, 0} \<times> {- 1, 0}"
    unfolding connected_def ds es by auto
  then have "components sentinel_graph = {{- 1, 0}}"
    unfolding components_def ds quotient_def by auto
  then have k: "card (components sentinel_graph) = 1" by simp
  have evb: "case breadth_first_search sentinel_graph of
               None \<Rightarrow> False | Some pm \<Rightarrow> pm (- 1) = Some (- 1) \<and> pm 0 = Some (- 1)"
    by code_simp
  have evd: "case depth_first_search sentinel_graph of
               None \<Rightarrow> False | Some pm \<Rightarrow> pm (- 1) = Some (- 1) \<and> pm 0 = Some (- 1)"
    by code_simp
  from search_parent_map_general [of sentinel_graph] obtain pb pd where
    b: "breadth_first_search sentinel_graph = Some pb"
    and d: "depth_first_search sentinel_graph = Some pd"
    and "dom pb = set (vertex_descriptors sentinel_graph)"
    and "dom pd = set (vertex_descriptors sentinel_graph)"
    by (elim exE conjE)
  then have db: "dom pb = {- 1, 0}" and dd: "dom pd = {- 1, 0}"
    unfolding ds by simp_all
  from evb b have pb: "pb (- 1) = Some (- 1)" "pb 0 = Some (- 1)" by simp_all
  from evd d have pd: "pd (- 1) = Some (- 1)" "pd 0 = Some (- 1)" by simp_all
  have "{v. pb v = Some (- 1)} = {- 1, 0}"
  proof (rule set_eqI)
    fix v
    have "v \<in> {- 1, 0}" if "pb v = Some (- 1)" using that db by blast
    with pb show "v \<in> {v. pb v = Some (- 1)} \<longleftrightarrow> v \<in> {- 1, 0}" by auto
  qed
  then have cb: "card {v. pb v = Some (- 1)} = 2" by simp
  have "{v. pd v = Some (- 1)} = {- 1, 0}"
  proof (rule set_eqI)
    fix v
    have "v \<in> {- 1, 0}" if "pd v = Some (- 1)" using that dd by blast
    with pd show "v \<in> {v. pd v = Some (- 1)} \<longleftrightarrow> v \<in> {- 1, 0}" by auto
  qed
  then have cd: "card {v. pd v = Some (- 1)} = 2" by simp
  from wf un k b d pb pd cb cd show ?thesis by simp
qed

text \<open>
  C5, amended: for every undirected graph that satisfies the invariants of the data model
  and has no vertex with the descriptor \<^verbatim>\<open>SIZE_MAX\<close>, the value that the sentinel -1 is
  stored as, breadth-first and depth-first search each return a parent map whose keys are
  exactly the vertex descriptors of the graph, whose value is the sentinel exactly at the
  root of each component (its first vertex in iteration order), and which so has as many
  sentinel entries as the graph has components; on the empty graph the map is empty.
\<close>

theorem searches_parent_map:
  assumes wf: "wf_graph g" and un: "undirected g"
    and ns: "- 1 \<notin> set (vertex_descriptors g)"
  shows "\<exists>pb pd. breadth_first_search g = Some pb \<and> depth_first_search g = Some pd
     \<and> dom pb = set (vertex_descriptors g) \<and> dom pd = set (vertex_descriptors g)
     \<and> (\<forall>v. pb v = Some (- 1) \<longleftrightarrow> component_root g v)
     \<and> (\<forall>v. pd v = Some (- 1) \<longleftrightarrow> component_root g v)
     \<and> card {v. pb v = Some (- 1)} = card (components g)
     \<and> card {v. pd v = Some (- 1)} = card (components g)
     \<and> (m_vertices g = [] \<longrightarrow> pb = Map.empty \<and> pd = Map.empty)"
proof -
  from search_parent_map_general [of g] obtain pb pd where
    b: "breadth_first_search g = Some pb" and d: "depth_first_search g = Some pd"
    and db: "dom pb = set (vertex_descriptors g)" and dd: "dom pd = set (vertex_descriptors g)"
    and rb: "\<forall>v. pb v = Some (- 1) \<longleftrightarrow> first_reaching g (vertex_descriptors g) v"
    and rd: "\<forall>v. pd v = Some (- 1) \<longleftrightarrow> first_reaching g (vertex_descriptors g) v"
    using ns by blast
  from rb have rb': "\<forall>v. pb v = Some (- 1) \<longleftrightarrow> component_root g v"
    by (simp add: first_reaching_root [OF wf un])
  from rd have rd': "\<forall>v. pd v = Some (- 1) \<longleftrightarrow> component_root g v"
    by (simp add: first_reaching_root [OF wf un])
  from rb' have cb: "card {v. pb v = Some (- 1)} = card (components g)"
    by (simp add: card_component_roots)
  from rd' have cd: "card {v. pd v = Some (- 1)} = card (components g)"
    by (simp add: card_component_roots)
  have e: "pb = Map.empty \<and> pd = Map.empty" if "m_vertices g = []"
    using that db dd by (simp add: vertex_descriptors_def)
  from b d db dd rb' rd' cb cd e show ?thesis by blast
qed

theorem searches_parent_map_witness:
  "wf_graph scenario_graph \<and> undirected scenario_graph
   \<and> - 1 \<notin> set (vertex_descriptors scenario_graph)
   \<and> (\<exists>pb pd. breadth_first_search scenario_graph = Some pb
        \<and> depth_first_search scenario_graph = Some pd
        \<and> dom pb = {0, 1, 2, 3} \<and> dom pd = {0, 1, 2, 3}
        \<and> card {v. pb v = Some (- 1)} = card (components scenario_graph)
        \<and> card {v. pd v = Some (- 1)} = card (components scenario_graph))"
proof -
  have wf: "wf_graph scenario_graph" by code_simp
  have un: "undirected scenario_graph" by code_simp
  have ds: "set (vertex_descriptors scenario_graph) = {0, 1, 2, 3}"
    by (simp add: vertex_descriptors_def scenario_graph_def new_vertex_def)
  have ns: "- 1 \<notin> set (vertex_descriptors scenario_graph)"
    unfolding ds by simp
  from searches_parent_map [OF wf un ns] wf un ns show ?thesis unfolding ds by blast
qed


section \<open>The searches on concrete graphs\<close>

text \<open>
  C6: on the scenario graph, breadth-first search returns the parent map with the keys 0
  to 3 and parent[0] = -1, parent[1] = 0, parent[2] = 1 and parent[3] = -1: the roots 0
  and 3 of the two components.
\<close>

theorem bfs_scenario:
  "\<exists>pm. breadth_first_search scenario_graph = Some pm \<and> dom pm = {0, 1, 2, 3}
     \<and> pm 0 = Some (- 1) \<and> pm 1 = Some 0 \<and> pm 2 = Some 1 \<and> pm 3 = Some (- 1)"
proof -
  have ev: "case breadth_first_search scenario_graph of
              None \<Rightarrow> False
            | Some pm \<Rightarrow> pm 0 = Some (- 1) \<and> pm 1 = Some 0 \<and> pm 2 = Some 1
                \<and> pm 3 = Some (- 1)"
    by code_simp
  have ds: "set (vertex_descriptors scenario_graph) = {0, 1, 2, 3}"
    by (simp add: vertex_descriptors_def scenario_graph_def new_vertex_def)
  from search_parent_map_general [of scenario_graph] obtain pm where
    "breadth_first_search scenario_graph = Some pm" and "dom pm = {0, 1, 2, 3}"
    unfolding ds by blast
  with ev show ?thesis by simp
qed

text \<open>
  C7, at the failing input. On two vertices joined by an undirected edge, the search
  dequeues 1 and examines the edge (1,0), whose target is explored: the edge is still in
  \<^verbatim>\<open>edges_unexplored\<close> when the search ends. Depth-first search erases it.
\<close>

theorem bfs_cross_edge_stays_unexplored:
  "map_option edges_unexplored (bfs_run pair_graph) = Some [(1, 0)]
   \<and> map_option edges_unexplored (dfs_run pair_graph) = Some []"
  by code_simp

end
